theory Spec2Isabelle
  imports Complex_Main
begin

unbundle bit_operations_syntax

section \<open>Assignment discovery\<close>

text \<open>
  The walk \<open>findAssign\<close> reads only the kind tag of a node and, per kind, the fields
  \<open>operator\<close>, \<open>lvalue\<close>, \<open>rvalue\<close>, \<open>value\<close> and \<open>params\<close>. The node shapes come from
  the parser, which is not part of the sources at hand: a node is modelled by its kind and
  exactly these fields, every child being nullable (\<open>scope?.kind\<close>). All kinds the walk
  does not look into, other than \<open>Variable\<close>, are collected under \<open>OtherNode\<close>.
\<close>

datatype node =
    BinaryExpression string "node option" "node option"
  | ParenthesisedExpression "node option"
  | UnaryExpression "node option"
  | FunctionExpression "node option list"
  | MapLiteral "node option list"
  | ListLiteral "node option list"
  | Variable string
  | OtherNode string

text \<open>
  Modelled from the spec: \<open>resolveParenthesised\<close> lives in findScope.js, which is not among
  the sources. The specification describes it as stripping any chain of enclosing
  parenthesised-expression wrappers.
\<close>

fun resolveParenthesised :: "node option \<Rightarrow> node option" where
  "resolveParenthesised (Some (ParenthesisedExpression v)) = resolveParenthesised v"
| "resolveParenthesised n = n"

text \<open>The test \<open>variable?.kind === 'Variable'\<close>; a null node has no kind.\<close>

fun isVariable :: "node option \<Rightarrow> bool" where
  "isVariable (Some (Variable name)) = True"
| "isVariable n = False"

text \<open>
  The array \<open>names\<close> is mutated in place by \<open>push\<close>; the model passes it through and
  returns it. The \<open>for ... of\<close> loop over \<open>params\<close> is a left-to-right \<open>fold\<close>.
\<close>

function findAssign :: "node option \<Rightarrow> node list \<Rightarrow> node list" where
  "findAssign None names = names"
| "findAssign (Some (BinaryExpression operator lvalue rvalue)) names =
    (if operator = ''='' \<or> operator = ''+='' \<or> operator = ''<>'' then
       (let variable = resolveParenthesised lvalue in
        if \<not> isVariable variable
        then findAssign rvalue (names @ [BinaryExpression operator lvalue rvalue])
        else names)
     else findAssign rvalue (findAssign lvalue names))"
| "findAssign (Some (ParenthesisedExpression v)) names = findAssign v names"
| "findAssign (Some (UnaryExpression v)) names = findAssign v names"
| "findAssign (Some (FunctionExpression params)) names = fold findAssign params names"
| "findAssign (Some (MapLiteral params)) names = fold findAssign params names"
| "findAssign (Some (ListLiteral params)) names = fold findAssign params names"
| "findAssign (Some (Variable name)) names = names"
| "findAssign (Some (OtherNode k)) names = names"
  by pat_completeness auto
termination
proof (relation "measure (\<lambda>(scope, names). size_option size scope)")
  fix params :: "node option list" and x
  assume "x \<in> set params"
  then have "size_option size x \<le> size_list (size_option size) params"
    by (induction params) auto
  then show "((x, names'), (Some (FunctionExpression params), names)) \<in> measure (\<lambda>(scope, names). size_option size scope)"
    "((x, names'), (Some (MapLiteral params), names)) \<in> measure (\<lambda>(scope, names). size_option size scope)"
    "((x, names'), (Some (ListLiteral params), names)) \<in> measure (\<lambda>(scope, names). size_option size scope)"
    for names names' :: "node list"
    by simp_all
qed simp_all

section \<open>The tokenizer\<close>

subsection \<open>Strings and characters\<close>

text \<open>
  A JavaScript string is a sequence of 16-bit code units; \<open>charCodeAt\<close> gives the unit
  as a number, and \<open>NaN\<close> beyond the end of the string. A code unit is a \<open>nat\<close>
  (below \<open>65536\<close> in every string JavaScript can build) and the result of \<open>charCodeAt\<close>
  is a \<open>nat option\<close>, \<open>None\<close> being \<open>NaN\<close>: every comparison with \<open>NaN\<close> is false.
\<close>

definition charCodeAt :: "nat list \<Rightarrow> nat \<Rightarrow> nat option" where
  "charCodeAt str i = (if i < length str then Some (str ! i) else None)"

text \<open>\<open>c | k\<close> converts \<open>NaN\<close> to \<open>0\<close> before the bitwise or.\<close>

definition bitOr :: "nat option \<Rightarrow> nat \<Rightarrow> nat" where
  "bitOr c k = (case c of None \<Rightarrow> k | Some n \<Rightarrow> n OR k)"

text \<open>\<open>str.slice(a, b)\<close> for indices that are not negative: empty when \<open>b \<le> a\<close>.\<close>

definition slice :: "nat list \<Rightarrow> nat \<Rightarrow> nat \<Rightarrow> nat list" where
  "slice str a b = take (b - a) (drop a str)"

text \<open>\<open>str.indexOf(ch, from)\<close> for a single code unit: \<open>-1\<close> when there is none.\<close>

definition indexOf :: "nat list \<Rightarrow> nat \<Rightarrow> nat \<Rightarrow> int" where
  "indexOf str ch from =
     (if ch \<in> set (drop from str)
      then int (from + length (takeWhile (\<lambda>x. x \<noteq> ch) (drop from str)))
      else - 1)"

text \<open>
  The classification tables of unicode.js are generated from the Unicode database, and the
  reserved constants are declared in Token.js; neither is among the sources, so they are
  parameters of the model. So is the one limit of the JavaScript engine that the tokenizer
  can reach: the largest number of bits of a BigInt, beyond which an operation on BigInts
  throws a \<open>RangeError\<close>. The language leaves that limit to the engine; in V8 it is \<open>2 ^ 30\<close>.
\<close>

record tables =
  LETTER_CHAR_CODES :: "nat set"
  JAVA_WHITESPACE_CHAR_CODES :: "nat list"
  DECIMAL_DIGIT_CHAR_CODES :: "nat \<rightharpoonup> nat"
  CONSTANTS :: "nat list set"
  MAX_BIGINT_BITS :: nat

text \<open>
  Modelled from the spec: char.js is not among the sources. The specification describes
  its predicates as lookups in the tables: the set of letters, the list of whitespace code
  points and the keys of the map from decimal digits to their values. \<open>NaN\<close> is in no
  table. A hexadecimal digit is one of \<open>0-9\<close>, \<open>A-F\<close>, \<open>a-f\<close>.
\<close>

definition isWhitespace :: "tables \<Rightarrow> nat option \<Rightarrow> bool" where
  "isWhitespace U c = (case c of None \<Rightarrow> False | Some n \<Rightarrow> n \<in> set (JAVA_WHITESPACE_CHAR_CODES U))"

definition isDigit :: "tables \<Rightarrow> nat option \<Rightarrow> bool" where
  "isDigit U c = (case c of None \<Rightarrow> False | Some n \<Rightarrow> DECIMAL_DIGIT_CHAR_CODES U n \<noteq> None)"

definition isLetter :: "tables \<Rightarrow> nat option \<Rightarrow> bool" where
  "isLetter U c = (case c of None \<Rightarrow> False | Some n \<Rightarrow> n \<in> LETTER_CHAR_CODES U)"

definition isHexDigit :: "nat option \<Rightarrow> bool" where
  "isHexDigit c = (case c of None \<Rightarrow> False
     | Some n \<Rightarrow> (0x30 \<le> n \<and> n \<le> 0x39) \<or> (0x41 \<le> n \<and> n \<le> 0x46) \<or> (0x61 \<le> n \<and> n \<le> 0x66))"

subsection \<open>Positions, diagnostics and tokens\<close>

record position =
  offset :: nat
  prow :: nat
  pcol :: nat

datatype diagnostics =
    ExpectedHexDigit | UnicodeDigit | LossOfPrecision | UnexpectedEof
  | UnknownEscapeSequence | UnexpectedComment | UnexpectedNewLineMarker
  | UnknownOperator | UnexpectedToken

record diagnostic =
  code :: diagnostics
  range_start :: position
  range_end :: position

datatype tokentype =
    T_String | T_Number | T_HexNumber | T_Function | T_Constant | T_Variable | T_Comment
  | T_Spread | T_NewLineMarker | T_Semicolon | T_Comma | T_Colon | T_Tilde | T_Not
  | T_NotEquals | T_Div | T_Add | T_AddAssign | T_Sub | T_Arrow | T_SwapAssign | T_LtEq
  | T_Lt | T_GtEq | T_Gt | T_Equals | T_Assign | T_Pow | T_Mul | T_Mod | T_And | T_Or
  | T_OpenParen | T_CloseParen | T_OpenBrack | T_CloseBrack | T_OpenBrace | T_CloseBrace

text \<open>
  The value of a token is a BigInt, a floating-point number or a string. Floating-point
  arithmetic is outside this model: the float a literal denotes is carried as the exact
  rational the source's formula gives before any rounding (\<open>NonFinite\<close> when the formula
  multiplies by an infinite power of ten), and no statement below depends on it.
\<close>

datatype tokvalue = BigInt int | Float rat | NonFinite | Str "nat list"

record token =
  kind :: tokentype
  tstart :: position
  tend :: position
  tvalue :: "tokvalue option"
  hasError :: bool

text \<open>
  Modelled from the spec: Token.js is not among the sources. A token has a kind, a start,
  an end, a value that may be none and an error flag; where the tokenizer passes no value
  the token has none, and where it passes no flag the flag is not set.
\<close>

definition Token :: "tokentype \<Rightarrow> position \<Rightarrow> position \<Rightarrow> tokvalue option \<Rightarrow> bool \<Rightarrow> token" where
  "Token k st en v e = \<lparr>kind = k, tstart = st, tend = en, tvalue = v, hasError = e\<rparr>"

subsection \<open>The state of a tokenizer\<close>

text \<open>
  The arrays \<open>errors\<close> and \<open>warnings\<close> belong to the caller and are mutated in place, and
  the caller may pass the same array for both. So the tokenizer holds two references into
  a heap of arrays, and \<open>push\<close> updates the heap.
\<close>

record heap =
  arrays :: "nat \<Rightarrow> diagnostic list"
  allocated :: nat

definition newArray :: "heap \<Rightarrow> nat \<times> heap" where
  "newArray h = (allocated h, h\<lparr>arrays := (arrays h)(allocated h := []), allocated := allocated h + 1\<rparr>)"

definition push :: "heap \<Rightarrow> nat \<Rightarrow> diagnostic \<Rightarrow> heap" where
  "push h a d = h\<lparr>arrays := (arrays h)(a := arrays h a @ [d])\<rparr>"

record tokenizer =
  input :: "nat list"
  allowComments :: bool
  allowNewLineMarkers :: bool
  pos :: nat
  row :: nat
  col :: nat
  errors :: nat
  warnings :: nat
  mem :: heap

record options =
  opt_allowComments :: "bool option"
  opt_allowNewLineMarkers :: "bool option"
  opt_errors :: "nat option"
  opt_warnings :: "nat option"

text \<open>
  The constructor. \<open>options.allowComments != false\<close> holds for an absent option, and
  \<open>options.errors || []\<close> makes a new array when none is given.
\<close>

definition Tokenizer :: "nat list \<Rightarrow> options \<Rightarrow> heap \<Rightarrow> tokenizer" where
  "Tokenizer inp opts h =
     (let (e, h1) = (case opt_errors opts of Some a \<Rightarrow> (a, h) | None \<Rightarrow> newArray h);
          (w, h2) = (case opt_warnings opts of Some a \<Rightarrow> (a, h1) | None \<Rightarrow> newArray h1)
      in \<lparr>input = inp,
          allowComments = (opt_allowComments opts \<noteq> Some False),
          allowNewLineMarkers = (opt_allowNewLineMarkers opts = Some True),
          pos = 0, row = 0, col = 0, errors = e, warnings = w, mem = h2\<rparr>)"

definition getPosition :: "tokenizer \<Rightarrow> position" where
  "getPosition s = \<lparr>offset = pos s, prow = row s, pcol = col s\<rparr>"

definition getChar :: "tokenizer \<Rightarrow> nat option" where
  "getChar s = charCodeAt (input s) (pos s)"

definition peekChar :: "tokenizer \<Rightarrow> nat option" where
  "peekChar s = charCodeAt (input s) (pos s + 1)"

definition errorAt :: "tokenizer \<Rightarrow> diagnostics \<Rightarrow> position \<Rightarrow> position \<Rightarrow> tokenizer" where
  "errorAt s d st en = s\<lparr>mem := push (mem s) (errors s) \<lparr>code = d, range_start = st, range_end = en\<rparr>\<rparr>"

definition error :: "tokenizer \<Rightarrow> diagnostics \<Rightarrow> tokenizer" where
  "error s d = errorAt s d (getPosition s) (getPosition s)"

subsection \<open>Whitespace\<close>

function skipWhitespace :: "tables \<Rightarrow> tokenizer \<Rightarrow> tokenizer" where
  "skipWhitespace U s =
     (if pos s < length (input s) \<and> isWhitespace U (getChar s) then
        (let ch = getChar s;
             s1 = s\<lparr>pos := pos s + 1, col := col s + 1\<rparr>
         in skipWhitespace U (if ch = Some 0x0a then s1\<lparr>row := row s1 + 1, col := 0\<rparr> else s1))
      else s)"
  by pat_completeness auto
termination
  by (relation "measure (\<lambda>(U, s). length (input s) - pos s)") auto

declare skipWhitespace.simps [simp del]

lemma skipWhitespace_frame:
  "input (skipWhitespace U s) = input s \<and> pos s \<le> pos (skipWhitespace U s)"
proof (induction U s rule: skipWhitespace.induct)
  case (1 U s)
  show ?case
  proof (cases "pos s < length (input s) \<and> isWhitespace U (getChar s)")
    case True
    then show ?thesis
      using "1.IH" [OF True refl refl]
      by (subst (1 2) skipWhitespace.simps) (auto simp: Let_def)
  next
    case False
    then show ?thesis by (subst (1 2) skipWhitespace.simps) auto
  qed
qed


subsection \<open>Numbers\<close>

text \<open>
  The exponent of a decimal literal is accumulated in a JavaScript number, a double. On
  natural numbers, a product or sum of doubles is the exact result rounded to 53
  significant bits, ties to even, and \<open>Infinity\<close> from \<open>2 ^ 1024\<close> on. \<open>toNumber\<close> is that
  rounding, \<open>None\<close> being \<open>Infinity\<close>.
\<close>

fun bitlen :: "nat \<Rightarrow> nat" where
  "bitlen n = (if n = 0 then 0 else Suc (bitlen (n div 2)))"

declare bitlen.simps [simp del]

definition toNumber :: "nat \<Rightarrow> nat option" where
  "toNumber n =
     (if n < 2 ^ 53 then Some n
      else (let k = bitlen n - 53;
                q = n div 2 ^ k;
                r = n mod 2 ^ k;
                m = (if 2 ^ k < 2 * r \<or> (2 * r = 2 ^ k \<and> odd q) then q + 1 else q)
            in if 2 ^ 1024 \<le> m * 2 ^ k then None else Some (m * 2 ^ k)))"

definition timesNumber :: "nat option \<Rightarrow> nat \<Rightarrow> nat option" where
  "timesNumber x k = (case x of None \<Rightarrow> None | Some n \<Rightarrow> toNumber (n * k))"

definition plusNumber :: "nat option \<Rightarrow> nat \<Rightarrow> nat option" where
  "plusNumber x k = (case x of None \<Rightarrow> None | Some n \<Rightarrow> toNumber (n + k))"

text \<open>
  What the tokenizer can throw, in \<open>intValue * 10n ** BigInt(exp)\<close>: \<open>BigInt(Infinity)\<close> is a
  \<open>RangeError\<close>, and so is a power or a product that has more bits than the engine allows.
\<close>

datatype exception = RangeError

definition tooBig :: "tables \<Rightarrow> int \<Rightarrow> bool" where
  "tooBig U x = (MAX_BIGINT_BITS U < bitlen (nat \<bar>x\<bar>))"

text \<open>
  The local variables of \<open>readNumber\<close>. \<open>fvalue\<close> is the source's \<open>value\<close> and \<open>expo\<close>
  its \<open>exp\<close>. \<open>decimalDigits\<close> is a double as well, used as a flag (zero or not) and as
  the divisor of a floating-point digit; it is kept exact.
\<close>

record numvars =
  nc :: "nat option"
  intValue :: int
  fvalue :: rat
  expo :: "nat option"
  expSign :: int
  decimalDigits :: nat
  isUnicode :: bool
  isExp :: bool

definition MAX_SAFE_INTEGER :: int where
  "MAX_SAFE_INTEGER = 9007199254740991"

text \<open>
  The three statements the source has twice, at a decimal point and at a negative exponent
  sign: \<open>decimalDigits = 10\<close>, the loss-of-precision check, \<open>value = Number(intValue)\<close>.
\<close>

definition startFraction :: "position \<Rightarrow> tokenizer \<times> numvars \<Rightarrow> tokenizer \<times> numvars" where
  "startFraction pos0 sv =
     (let (s, v) = sv;
          s1 = (if intValue v > MAX_SAFE_INTEGER then errorAt s LossOfPrecision pos0 (getPosition s) else s)
      in (s1, v\<lparr>decimalDigits := 10, fvalue := of_int (intValue v)\<rparr>))"

text \<open>
  One turn of the \<open>while\<close> loop of \<open>readNumber\<close>: \<open>None\<close> is \<open>break\<close>. A digit at or
  below 127 is one of \<open>0\<close> to \<open>9\<close> in the Unicode table, so that \<open>c - 0x30\<close> is not negative.
\<close>

definition readNumber_step :: "tables \<Rightarrow> position \<Rightarrow> tokenizer \<times> numvars \<Rightarrow> (tokenizer \<times> numvars) option" where
  "readNumber_step U pos0 sv =
     (let (s, v) = sv in
      (case
         (if isDigit U (nc v) then
            Some (if the (nc v) > 127 then (error s UnicodeDigit, v\<lparr>isUnicode := True\<rparr>)
                  else if isExp v then
                    (s, v\<lparr>expo := plusNumber (timesNumber (expo v) 10) (the (nc v) - 0x30)\<rparr>)
                  else if decimalDigits v \<noteq> 0 then
                    (s, v\<lparr>fvalue := fvalue v + of_nat (the (nc v) - 0x30) / of_nat (decimalDigits v),
                           decimalDigits := decimalDigits v * 10\<rparr>)
                  else (s, v\<lparr>intValue := intValue v * 10 + (int (the (nc v)) - 0x30)\<rparr>))
          else if decimalDigits v = 0 \<and> nc v = Some 0x2e then
            Some (startFraction pos0 (s, v))
          else if \<not> isExp v \<and> bitOr (nc v) 0x20 = 0x65 then
            (let s1 = s\<lparr>pos := pos s + 1, col := col s + 1\<rparr>;
                 v1 = v\<lparr>isExp := True, nc := getChar s1\<rparr>
             in Some (if nc v1 = Some 0x2d then
                        (if decimalDigits v1 = 0 then startFraction pos0 (s1, v1\<lparr>expSign := - 1\<rparr>)
                         else (s1, v1\<lparr>expSign := - 1\<rparr>))
                      else if nc v1 \<noteq> Some 0x2b then (s1\<lparr>pos := pos s1 - 1\<rparr>, v1)
                      else (s1, v1)))
          else None)
       of None \<Rightarrow> None
        | Some (s2, v2) \<Rightarrow>
            (let s3 = s2\<lparr>pos := pos s2 + 1, col := col s2 + 1\<rparr>
             in Some (s3, v2\<lparr>nc := getChar s3\<rparr>))))"

lemma startFraction_frame:
  "pos (fst (startFraction pos0 (s, v))) = pos s \<and> input (fst (startFraction pos0 (s, v))) = input s"
  by (simp add: startFraction_def Let_def errorAt_def)

lemma readNumber_step_advances:
  assumes "readNumber_step U pos0 (s, v) = Some (s', v')"
  shows "pos s < pos s' \<and> input s' = input s"
  using assms startFraction_frame [of pos0 s v]
    startFraction_frame [of pos0 "s\<lparr>pos := pos s + 1, col := col s + 1\<rparr>"
      "v\<lparr>isExp := True, nc := getChar (s\<lparr>pos := pos s + 1, col := col s + 1\<rparr>), expSign := - 1\<rparr>"]
  by (auto simp: readNumber_step_def Let_def error_def errorAt_def
      split: if_splits option.splits prod.splits)

function readNumber_loop :: "tables \<Rightarrow> position \<Rightarrow> tokenizer \<times> numvars \<Rightarrow> tokenizer \<times> numvars" where
  "readNumber_loop U pos0 sv =
     (if pos (fst sv) < length (input (fst sv)) then
        (case readNumber_step U pos0 sv of
           None \<Rightarrow> sv
         | Some sv' \<Rightarrow> readNumber_loop U pos0 sv')
      else sv)"
  by pat_completeness auto
termination
proof (relation "measure (\<lambda>(U, pos0, sv). length (input (fst sv)) - pos (fst sv))")
  fix U pos0 and sv sv' :: "tokenizer \<times> numvars"
  assume "pos (fst sv) < length (input (fst sv))" and "readNumber_step U pos0 sv = Some sv'"
  then show "((U, pos0, sv'), (U, pos0, sv)) \<in> measure (\<lambda>(U, pos0, sv). length (input (fst sv)) - pos (fst sv))"
    using readNumber_step_advances [of U pos0 "fst sv" "snd sv" "fst sv'" "snd sv'"] by auto
qed simp

declare readNumber_loop.simps [simp del]

text \<open>The \<open>do ... while\<close> loop over the hexadecimal digits.\<close>

function readHex_loop :: "tokenizer \<Rightarrow> nat option \<Rightarrow> int \<Rightarrow> tokenizer \<times> int" where
  "readHex_loop s ch iv =
     (let iv1 = push_bit 4 iv OR (if the ch < 0x3a then int (the ch) - 0x30 else int (bitOr ch 0x20) - 0x57);
          s1 = s\<lparr>pos := pos s + 1, col := col s + 1\<rparr>;
          ch1 = getChar s1
      in if pos s1 < length (input s1) \<and> isHexDigit ch1 then readHex_loop s1 ch1 iv1 else (s1, iv1))"
  by pat_completeness auto
termination
  by (relation "measure (\<lambda>(s, ch, iv). Suc (length (input s)) - pos s)") auto

declare readHex_loop.simps [simp del]

definition readNumber :: "tables \<Rightarrow> tokenizer \<Rightarrow> (exception + token) \<times> tokenizer" where
  "readNumber U s =
     (let pos0 = getPosition s; c0 = getChar s in
      if c0 = Some 0x30 \<and> bitOr (peekChar s) 0x20 = 0x78 then
        (let s1 = s\<lparr>pos := pos s + 2\<rparr>; c1 = getChar s1 in
         if \<not> isHexDigit c1 then
           (let s2 = error s1 ExpectedHexDigit
            in (Inr (Token T_HexNumber pos0 (getPosition s2) None True), s2))
         else
           (let (s2, iv) = readHex_loop s1 c1 0
            in (Inr (Token T_HexNumber pos0 (getPosition s2) (Some (BigInt iv)) False), s2)))
      else
        (let (s1, v) = readNumber_loop U pos0
               (s, \<lparr>nc = c0, intValue = 0, fvalue = 0, expo = Some 0, expSign = 1,
                    decimalDigits = 0, isUnicode = False, isExp = False\<rparr>)
         in case
              (if isExp v then
                 (if decimalDigits v \<noteq> 0 then
                    Inr (case expo v of
                           None \<Rightarrow> if expSign v < 0 then Float 0 else NonFinite
                         | Some e \<Rightarrow> Float (if expSign v < 0 then fvalue v / 10 ^ e else fvalue v * 10 ^ e))
                  else (case expo v of
                          None \<Rightarrow> Inl RangeError
                        | Some e \<Rightarrow>
                            if tooBig U (10 ^ e) then Inl RangeError
                            else if tooBig U (intValue v * 10 ^ e) then Inl RangeError
                            else Inr (BigInt (intValue v * 10 ^ e))))
               else if decimalDigits v \<noteq> 0 then Inr (Float (fvalue v))
               else Inr (BigInt (intValue v)))
            of Inl x \<Rightarrow> (Inl x, s1)
             | Inr finalValue \<Rightarrow>
                 (Inr (Token T_Number pos0 (getPosition s1)
                        (if \<not> isUnicode v then Some finalValue else None) (isUnicode v)), s1)))"

subsection \<open>Strings\<close>

text \<open>
  One turn of the \<open>while\<close> loop of \<open>readString\<close>, over the state, the current character,
  \<open>start\<close> and \<open>value\<close>: \<open>Inl\<close> is a \<open>return\<close> from inside the loop.
\<close>

definition readString_step ::
  "position \<Rightarrow> tokenizer \<times> nat option \<times> nat \<times> nat list \<Rightarrow>
   token \<times> tokenizer + tokenizer \<times> nat option \<times> nat \<times> nat list" where
  "readString_step pos0 x =
     (let (s, ch, start, val) = x in
      case
        (if ch = Some 0x5c then
           (let val1 = val @ slice (input s) start (pos s);
                s1 = s\<lparr>pos := pos s + 1, col := col s + 1\<rparr>;
                start1 = pos s1 + 1
            in if pos s1 \<ge> length (input s1) then
                 (let s2 = error s1 UnexpectedEof
                  in Inl (Token T_String pos0 (getPosition s2) (Some (Str val1)) True, s2))
               else
                 (let ch1 = getChar s1 in
                  if ch1 = Some 0x6e then Inr (s1, ch1, start1, val1 @ [0x0a])
                  else if ch1 = Some 0x74 then Inr (s1, ch1, start1, val1 @ [0x09])
                  else if ch1 = Some 0x27 then Inr (s1, ch1, start1, val1 @ [0x27])
                  else if ch1 = Some 0x5c then Inr (s1, ch1, start1, val1 @ [0x5c])
                  else Inr (error (s1\<lparr>pos := pos s1 - 1\<rparr>) UnknownEscapeSequence, ch1, start1, val1)))
         else Inr (s, ch, start, val))
      of Inl r \<Rightarrow> Inl r
       | Inr (s2, ch2, start2, val2) \<Rightarrow>
           (let s3 = s2\<lparr>pos := pos s2 + 1, col := col s2 + 1\<rparr>;
                s4 = (if ch2 = Some 0x0a then s3\<lparr>row := row s3 + 1, col := 0\<rparr> else s3)
            in if pos s4 \<ge> length (input s4) then
                 (let s5 = error s4 UnexpectedEof
                  in Inl (Token T_String pos0 (getPosition s5) None True, s5))
               else Inr (s4, getChar s4, start2, val2)))"

lemma readString_step_advances:
  assumes "readString_step pos0 (s, ch, start, val) = Inr (s', ch', start', val')"
  shows "pos s < pos s' \<and> pos s' < length (input s') \<and> input s' = input s"
  using assms
  by (auto simp: readString_step_def Let_def error_def errorAt_def
      split: if_splits sum.splits prod.splits)

function readString_loop ::
  "position \<Rightarrow> tokenizer \<times> nat option \<times> nat \<times> nat list \<Rightarrow> token \<times> tokenizer" where
  "readString_loop pos0 x =
     (if fst (snd x) \<noteq> Some 0x27 then
        (case readString_step pos0 x of
           Inl r \<Rightarrow> r
         | Inr x' \<Rightarrow> readString_loop pos0 x')
      else
        (let (s, ch, start, val) = x;
             val1 = val @ slice (input s) start (pos s);
             s1 = s\<lparr>pos := pos s + 1, col := col s + 1\<rparr>
         in (Token T_String pos0 (getPosition s1) (Some (Str val1)) False, s1)))"
  by pat_completeness auto
termination
proof (relation "measure (\<lambda>(pos0, s, ch, start, val). length (input s) - pos s)")
  fix pos0 and x x' :: "tokenizer \<times> nat option \<times> nat \<times> nat list"
  assume "readString_step pos0 x = Inr x'"
  then show "((pos0, x'), (pos0, x)) \<in> measure (\<lambda>(pos0, s, ch, start, val). length (input s) - pos s)"
    using readString_step_advances [of pos0 "fst x" "fst (snd x)" "fst (snd (snd x))" "snd (snd (snd x))"
        "fst x'" "fst (snd x')" "fst (snd (snd x'))" "snd (snd (snd x'))"]
    by (cases x, cases x') auto
qed simp

declare readString_loop.simps [simp del]

definition readString :: "tokenizer \<Rightarrow> token \<times> tokenizer" where
  "readString s =
     (let pos0 = getPosition s;
          s1 = s\<lparr>pos := pos s + 1, col := col s + 1\<rparr>
      in readString_loop pos0 (s1, getChar s1, pos s1, []))"

subsection \<open>Identifiers\<close>

function readIdent_loop :: "tables \<Rightarrow> tokenizer \<Rightarrow> tokenizer" where
  "readIdent_loop U s =
     (if pos s < length (input s) \<and>
         (isLetter U (getChar s) \<or> getChar s = Some 0x5f \<or> isDigit U (getChar s))
      then readIdent_loop U (s\<lparr>pos := pos s + 1, col := col s + 1\<rparr>)
      else s)"
  by pat_completeness auto
termination
  by (relation "measure (\<lambda>(U, s). length (input s) - pos s)") auto

declare readIdent_loop.simps [simp del]

definition readIdent :: "tables \<Rightarrow> tokenizer \<Rightarrow> token \<times> tokenizer" where
  "readIdent U s =
     (let pos0 = getPosition s;
          s1 = readIdent_loop U (s\<lparr>pos := pos s + 1, col := col s + 1\<rparr>);
          val = slice (input s1) (offset pos0) (pos s1);
          s2 = skipWhitespace U s1;
          tokenType = (if getChar s2 = Some 0x28 then T_Function
                       else if val \<in> CONSTANTS U then T_Constant
                       else T_Variable)
      in (Token tokenType pos0 (getPosition s2) (Some (Str val)) False, s2))"

subsection \<open>Comments\<close>

text \<open>
  The \<open>do ... while\<close> loop of \<open>readComment\<close>, over the state and \<open>value\<close>. Nothing in the
  source bounds the number of its turns, so it is a partial function: \<open>None\<close> means that
  the loop does not end.
\<close>

partial_function (option) readComment_loop :: "tokenizer \<Rightarrow> nat list \<Rightarrow> (tokenizer \<times> nat list) option" where
  "readComment_loop s val =
     (let index = nat (indexOf (input s) 0x0a (pos s) + 1);
          val1 = val @ slice (input s) (pos s) index;
          s1 = s\<lparr>pos := index, row := row s + 1\<rparr>
      in if pos s1 < length (input s1) \<and> getChar s1 = Some 0x2f \<and> peekChar s1 = Some 0x2f
         then readComment_loop s1 val1
         else Some (s1, val1))"

declare readComment_loop.simps [code]

definition readComment :: "tokenizer \<Rightarrow> (token \<times> tokenizer) option" where
  "readComment s =
     (let s0 = (if \<not> allowComments s then error s UnexpectedComment else s);
          pos0 = getPosition s0
      in case readComment_loop s0 [] of
           None \<Rightarrow> None
         | Some (s1, val) \<Rightarrow>
             (let s2 = s1\<lparr>col := 0\<rparr>
              in Some (Token T_Comment pos0 (getPosition s2) (Some (Str val)) False, s2)))"

subsection \<open>Operators\<close>

definition readEllipsis :: "tokenizer \<Rightarrow> token \<times> tokenizer" where
  "readEllipsis s =
     (let pos0 = getPosition s;
          s1 = s\<lparr>pos := pos s + 1, col := col s + 1\<rparr>;
          s2 = (if getChar s1 \<noteq> Some 0x2e \<or> peekChar s1 \<noteq> Some 0x2e
                then error s1 UnknownOperator
                else s1\<lparr>pos := pos s1 + 2\<rparr>)
      in (Token T_Spread pos0 (getPosition s2) None False, s2))"

definition getOneCharToken :: "tokenizer \<Rightarrow> tokentype \<Rightarrow> token \<times> tokenizer" where
  "getOneCharToken s tokenType =
     (let pos0 = getPosition s;
          s1 = s\<lparr>pos := pos s + 1, col := col s + 1\<rparr>
      in (Token tokenType pos0 (getPosition s1) None False, s1))"

definition getTwoCharToken :: "tokenizer \<Rightarrow> tokentype \<Rightarrow> token \<times> tokenizer" where
  "getTwoCharToken s tokenType =
     (let pos0 = getPosition s;
          s1 = s\<lparr>pos := pos s + 2, col := col s + 2\<rparr>
      in (Token tokenType pos0 (getPosition s1) None False, s1))"

definition getBooleanOp :: "tokenizer \<Rightarrow> tokentype \<Rightarrow> nat \<Rightarrow> token \<times> tokenizer" where
  "getBooleanOp s tokenType char =
     (let pos0 = getPosition s;
          s1 = (if peekChar s \<noteq> Some char then error s UnknownOperator
                else s\<lparr>pos := pos s + 1, col := col s + 1\<rparr>);
          s2 = s1\<lparr>pos := pos s1 + 1, col := col s1 + 1\<rparr>
      in (Token tokenType pos0 (getPosition s2) None False, s2))"

subsection \<open>The next token\<close>

text \<open>
  A call of \<open>nextToken\<close> ends in one of three ways: it returns a token (\<open>Inr (Some t)\<close>)
  or the sentinel \<open>null\<close> at the end of the input (\<open>Inr None\<close>), it throws (\<open>Inl e\<close>), or
  it does not end. In the first two cases it leaves the tokenizer in a new state; the
  outcome of a call that does not end is \<open>None\<close>.
\<close>

type_synonym outcome = "((exception + token option) \<times> tokenizer) option"

definition returns :: "token \<times> tokenizer \<Rightarrow> outcome" where
  "returns r = Some (Inr (Some (fst r)), snd r)"

function nextToken :: "tables \<Rightarrow> tokenizer \<Rightarrow> outcome" where
  "nextToken U s0 =
     (let s = skipWhitespace U s0 in
      if pos s \<ge> length (input s) then Some (Inr None, s)
      else
        (let ch = getChar s in
         if ch = Some 0x27 then returns (readString s)
         else if ch = Some 0x24 then
           returns (getOneCharToken
             (if \<not> allowNewLineMarkers s then error s UnexpectedNewLineMarker else s) T_NewLineMarker)
         else if ch = Some 0x3b then returns (getOneCharToken s T_Semicolon)
         else if ch = Some 0x2c then returns (getOneCharToken s T_Comma)
         else if ch = Some 0x3a then returns (getOneCharToken s T_Colon)
         else if ch = Some 0x7e then returns (getOneCharToken s T_Tilde)
         else if ch = Some 0x21 then
           (if peekChar s = Some 0x3d then returns (getTwoCharToken s T_NotEquals)
            else returns (getOneCharToken s T_Not))
         else if ch = Some 0x2e then returns (readEllipsis s)
         else if ch = Some 0x2f then
           (if peekChar s = Some 0x2f then (case readComment s of None \<Rightarrow> None | Some r \<Rightarrow> returns r)
            else returns (getOneCharToken s T_Div))
         else if ch = Some 0x2b then
           (if peekChar s = Some 0x3d then returns (getTwoCharToken s T_AddAssign)
            else returns (getOneCharToken s T_Add))
         else if ch = Some 0x2d then
           (if peekChar s = Some 0x3e then returns (getTwoCharToken s T_Arrow)
            else returns (getOneCharToken s T_Sub))
         else if ch = Some 0x3c then
           (let next = peekChar s in
            if next = Some 0x3e then returns (getTwoCharToken s T_SwapAssign)
            else if next = Some 0x3d then returns (getTwoCharToken s T_LtEq)
            else returns (getOneCharToken s T_Lt))
         else if ch = Some 0x3e then
           (if peekChar s = Some 0x3d then returns (getTwoCharToken s T_GtEq)
            else returns (getOneCharToken s T_Gt))
         else if ch = Some 0x3d then
           (if peekChar s = Some 0x3d then returns (getTwoCharToken s T_Equals)
            else returns (getOneCharToken s T_Assign))
         else if ch = Some 0x5e then returns (getOneCharToken s T_Pow)
         else if ch = Some 0x2a then returns (getOneCharToken s T_Mul)
         else if ch = Some 0x25 then returns (getOneCharToken s T_Mod)
         else if ch = Some 0x26 then returns (getBooleanOp s T_And 0x26)
         else if ch = Some 0x7c then returns (getBooleanOp s T_Or 0x7c)
         else if ch = Some 0x28 then returns (getOneCharToken s T_OpenParen)
         else if ch = Some 0x29 then returns (getOneCharToken s T_CloseParen)
         else if ch = Some 0x5b then returns (getOneCharToken s T_OpenBrack)
         else if ch = Some 0x5d then returns (getOneCharToken s T_CloseBrack)
         else if ch = Some 0x7b then returns (getOneCharToken s T_OpenBrace)
         else if ch = Some 0x7d then returns (getOneCharToken s T_CloseBrace)
         else if isDigit U ch then
           (case readNumber U s of (Inl e, s1) \<Rightarrow> Some (Inl e, s1) | (Inr t, s1) \<Rightarrow> returns (t, s1))
         else if ch = Some 0x5f \<or> isLetter U ch then returns (readIdent U s)
         else
           (let s1 = error s UnexpectedToken
            in nextToken U (s1\<lparr>pos := pos s1 + 1, col := col s1 + 1\<rparr>))))"
  by pat_completeness auto

termination
proof (relation "measure (\<lambda>(U, s). length (input s) - pos s)")
  fix U s0 s s1
  assume "s = skipWhitespace U s0" and "\<not> length (input s) \<le> pos s"
    and "s1 = error s UnexpectedToken"
  then show "((U, s1\<lparr>pos := pos s1 + 1, col := col s1 + 1\<rparr>), (U, s0))
      \<in> measure (\<lambda>(U, s). length (input s) - pos s)"
    using skipWhitespace_frame [of U s0] by (auto simp: error_def errorAt_def)
qed simp

declare nextToken.simps [simp del]

subsection \<open>A concrete configuration\<close>

text \<open>
  Tables that hold the ASCII part of the Unicode data (the letters \<open>A-Z\<close> and \<open>a-z\<close>, the
  digits \<open>0-9\<close>, the whitespace of Java below 128), the constant \<open>pi\<close> and the limit of V8 on
  the bits of a BigInt; an empty heap and the options of a caller that passes none: the
  concrete inputs below are built from them.
\<close>

definition sampleTables :: tables where
  "sampleTables =
     \<lparr>LETTER_CHAR_CODES = {0x41..0x5a} \<union> {0x61..0x7a},
      JAVA_WHITESPACE_CHAR_CODES = [0x09, 0x0a, 0x0b, 0x0c, 0x0d, 0x1c, 0x1d, 0x1e, 0x1f, 0x20],
      DECIMAL_DIGIT_CHAR_CODES = (\<lambda>n. if 0x30 \<le> n \<and> n \<le> 0x39 then Some (n - 0x30) else None),
      CONSTANTS = {[0x70, 0x69]},
      MAX_BIGINT_BITS = 1073741824\<rparr>"

definition emptyHeap :: heap where
  "emptyHeap = \<lparr>arrays = (\<lambda>a. []), allocated = 0\<rparr>"

definition defaults :: options where
  "defaults = \<lparr>opt_allowComments = None, opt_allowNewLineMarkers = None,
               opt_errors = None, opt_warnings = None\<rparr>"

text \<open>
  A caller that passes one array, already allocated, as both \<open>errors\<close> and \<open>warnings\<close>.
\<close>

definition sharedSink :: options where
  "sharedSink = \<lparr>opt_allowComments = None, opt_allowNewLineMarkers = None,
                 opt_errors = Some 0, opt_warnings = Some 0\<rparr>"

definition oneArrayHeap :: heap where
  "oneArrayHeap = \<lparr>arrays = (\<lambda>a. []), allocated = 1\<rparr>"

subsection \<open>Notions of the specification\<close>


text \<open>The number a sequence of ASCII digits denotes.\<close>

definition decimalValue :: "nat list \<Rightarrow> nat" where
  "decimalValue ds = foldl (\<lambda>a d. a * 10 + (d - 0x30)) 0 ds"

definition asciiDigit :: "nat \<Rightarrow> bool" where
  "asciiDigit d = (0x30 \<le> d \<and> d \<le> 0x39)"

text \<open>
  What the Unicode data says about the decimal digits below 128: they are \<open>0\<close> to \<open>9\<close>.
\<close>

definition asciiDigitsOnly :: "tables \<Rightarrow> bool" where
  "asciiDigitsOnly U = (\<forall>n<128. isDigit U (Some n) = asciiDigit n)"

text \<open>The exponent as the source accumulates it, in a double.\<close>

definition exponentOf :: "nat list \<Rightarrow> nat option" where
  "exponentOf es = foldl (\<lambda>a d. plusNumber (timesNumber a 10) (d - 0x30)) (Some 0) es"

text \<open>The kinds of token that the tokenizer gives a value.\<close>

definition carriesValue :: "tokentype \<Rightarrow> bool" where
  "carriesValue k =
     (k = T_String \<or> k = T_Number \<or> k = T_HexNumber \<or> k = T_Function \<or> k = T_Constant \<or>
      k = T_Variable \<or> k = T_Comment)"

text \<open>
  A string literal that the end of the input cuts right after a backslash: the token ends at
  the end of the input and the last character of the input is a backslash.
\<close>

definition cutAfterBackslash :: "nat list \<Rightarrow> token \<Rightarrow> bool" where
  "cutAfterBackslash inp t =
     (kind t = T_String \<and> hasError t \<and> offset (tend t) = length inp \<and> inp \<noteq> [] \<and> last inp = 0x5c)"

text \<open>
  \<open>logged s s'\<close>: from \<open>s\<close> to \<open>s'\<close> the tokenizer has kept its input and its two references
  and has done nothing to the heap but append diagnostics to the array \<open>errors\<close>.
\<close>

definition logged :: "tokenizer \<Rightarrow> tokenizer \<Rightarrow> bool" where
  "logged s s' =
     (input s' = input s \<and> errors s' = errors s \<and> warnings s' = warnings s \<and>
      allocated (mem s') = allocated (mem s) \<and>
      (\<exists>ds. arrays (mem s') = (arrays (mem s))(errors s := arrays (mem s) (errors s) @ ds)))"

section \<open>Properties\<close>

subsection \<open>Assignment discovery: what is recorded\<close>

lemma fold_findAssign_append:
  assumes "\<And>x c. x \<in> set ps \<Longrightarrow> findAssign x (a @ c) = a @ findAssign x c"
  shows "fold findAssign ps (a @ b) = a @ fold findAssign ps b"
  using assms by (induction ps arbitrary: b) simp_all

lemma findAssign_Some_append:
  "findAssign (Some n) (a @ b) = a @ findAssign (Some n) b"
proof (induction n arbitrary: b)
  case (BinaryExpression operator lvalue rvalue)
  have l: "findAssign lvalue (a @ c) = a @ findAssign lvalue c" for c
    using BinaryExpression.IH(1) by (cases lvalue) simp_all
  have r: "findAssign rvalue (a @ c) = a @ findAssign rvalue c" for c
    using BinaryExpression.IH(2) by (cases rvalue) simp_all
  show ?case by (simp add: Let_def l r)
next
  case (ParenthesisedExpression v)
  then show ?case by (cases v) simp_all
next
  case (UnaryExpression v)
  then show ?case by (cases v) simp_all
next
  case (FunctionExpression params)
  have "findAssign x (a @ c) = a @ findAssign x c" if "x \<in> set params" for x c
    using FunctionExpression.IH that by (cases x) simp_all
  then have "fold findAssign params (a @ b) = a @ fold findAssign params b"
    by (rule fold_findAssign_append)
  then show ?case by simp
next
  case (MapLiteral params)
  have "findAssign x (a @ c) = a @ findAssign x c" if "x \<in> set params" for x c
    using MapLiteral.IH that by (cases x) simp_all
  then have "fold findAssign params (a @ b) = a @ fold findAssign params b"
    by (rule fold_findAssign_append)
  then show ?case by simp
next
  case (ListLiteral params)
  have "findAssign x (a @ c) = a @ findAssign x c" if "x \<in> set params" for x c
    using ListLiteral.IH that by (cases x) simp_all
  then have "fold findAssign params (a @ b) = a @ fold findAssign params b"
    by (rule fold_findAssign_append)
  then show ?case by simp
qed simp_all

lemma findAssign_append: "findAssign scope (a @ b) = a @ findAssign scope b"
  by (cases scope) (simp_all add: findAssign_Some_append)

text \<open>
  Claim C8. For a binary expression whose operator is \<open>=\<close>, \<open>+=\<close> or \<open><>\<close>: when the
  lvalue, stripped of its parentheses, is a \<open>Variable\<close> node, the walk leaves the result
  sequence as it was (the node is not recorded and neither operand is visited); otherwise
  the node itself is appended right after what was already found, followed by exactly what
  the walk finds in the rvalue alone.
\<close>

theorem findAssign_assignment:
  assumes "operator = ''='' \<or> operator = ''+='' \<or> operator = ''<>''"
  shows "findAssign (Some (BinaryExpression operator lvalue rvalue)) names =
    (if isVariable (resolveParenthesised lvalue) then names
     else names @ [BinaryExpression operator lvalue rvalue] @ findAssign rvalue [])"
proof -
  have "findAssign rvalue ((names @ [BinaryExpression operator lvalue rvalue]) @ []) =
      (names @ [BinaryExpression operator lvalue rvalue]) @ findAssign rvalue []"
    by (rule findAssign_append)
  with assms show ?thesis by (simp add: Let_def)
qed

theorem findAssign_assignment_witness:
  "(''='' = ''='' \<or> ''='' = ''+='' \<or> ''='' = ''<>'') \<and>
   findAssign (Some (BinaryExpression ''=''
       (Some (ListLiteral [Some (Variable ''a''), Some (Variable ''b'')]))
       (Some (BinaryExpression ''+='' (Some (ParenthesisedExpression (Some (Variable ''x''))))
          (Some (OtherNode ''NumberLiteral''))))))
     [] =
   [BinaryExpression ''=''
       (Some (ListLiteral [Some (Variable ''a''), Some (Variable ''b'')]))
       (Some (BinaryExpression ''+='' (Some (ParenthesisedExpression (Some (Variable ''x''))))
          (Some (OtherNode ''NumberLiteral''))))]"
  using findAssign_assignment [of "''=''"
      "Some (ListLiteral [Some (Variable ''a''), Some (Variable ''b'')])"
      "Some (BinaryExpression ''+='' (Some (ParenthesisedExpression (Some (Variable ''x''))))
          (Some (OtherNode ''NumberLiteral'')))" "[]"]
  by simp

subsection \<open>Evaluating the tokenizer, and facts used throughout\<close>

lemmas tokenizer_defs =
  Tokenizer_def defaults_def emptyHeap_def newArray_def sampleTables_def
  getChar_def peekChar_def charCodeAt_def isWhitespace_def isDigit_def isLetter_def
  isHexDigit_def Let_def slice_def error_def errorAt_def push_def getPosition_def Token_def
  returns_def readString_def readString_step_def readIdent_def readComment_def
  readEllipsis_def getOneCharToken_def getTwoCharToken_def getBooleanOp_def readNumber_def
  readNumber_step_def startFraction_def bitOr_def indexOf_def

lemmas loop_simps =
  nextToken.simps skipWhitespace.simps readString_loop.simps readIdent_loop.simps
  readComment_loop.simps readNumber_loop.simps readHex_loop.simps

lemma skipWhitespace_fields:
  "mem (skipWhitespace U s) = mem s \<and> errors (skipWhitespace U s) = errors s \<and>
   warnings (skipWhitespace U s) = warnings s \<and>
   allowComments (skipWhitespace U s) = allowComments s \<and>
   allowNewLineMarkers (skipWhitespace U s) = allowNewLineMarkers s"
proof (induction U s rule: skipWhitespace.induct)
  case (1 U s)
  show ?case
  proof (cases "pos s < length (input s) \<and> isWhitespace U (getChar s)")
    case True
    then show ?thesis
      using "1.IH" [OF True refl refl]
      by (subst (1 2 3 4 5) skipWhitespace.simps) (auto simp: Let_def)
  next
    case False
    then show ?thesis by (subst (1 2 3 4 5) skipWhitespace.simps) auto
  qed
qed

lemma getChar_Some_in_range: "getChar s = Some ch \<Longrightarrow> pos s < length (input s)"
  by (simp add: getChar_def charCodeAt_def split: if_splits)





lemma drop_eq_ConsD:
  assumes "drop i xs = d # rest"
  shows "i < length xs" and "xs ! i = d" and "drop (Suc i) xs = rest"
proof -
  show len: "i < length xs"
  proof (rule ccontr)
    assume "\<not> i < length xs"
    then have "drop i xs = []" by simp
    with assms show False by simp
  qed
  from len have "xs ! i # drop (Suc i) xs = drop i xs"
    by (rule Cons_nth_drop_Suc)
  with assms show "xs ! i = d" and "drop (Suc i) xs = rest" by simp_all
qed

lemma getChar_at:
  assumes "drop (pos s) (input s) = d # rest"
  shows "getChar s = Some d"
  using drop_eq_ConsD(1,2) [OF assms] by (simp add: getChar_def charCodeAt_def)

lemma getChar_beyond:
  assumes "drop (pos s) (input s) = []"
  shows "getChar s = None"
  using assms by (simp add: getChar_def charCodeAt_def)




lemma peekChar_at:
  assumes "drop (pos s) (input s) = d # e # rest"
  shows "peekChar s = Some e"
proof -
  have "drop (Suc (pos s)) (input s) = e # rest"
    using drop_eq_ConsD(3) [OF assms] .
  from drop_eq_ConsD(1,2) [OF this] show ?thesis
    by (simp add: peekChar_def charCodeAt_def)
qed

lemma nextToken_digit:
  assumes "getChar (skipWhitespace U s) = Some d" and "0x30 \<le> d" and "d \<le> 0x39"
    and "isDigit U (Some d)"
  shows "nextToken U s =
    (case readNumber U (skipWhitespace U s) of
       (Inl e, s1) \<Rightarrow> Some (Inl e, s1)
     | (Inr t, s1) \<Rightarrow> returns (t, s1))"
proof -
  have "pos (skipWhitespace U s) < length (input (skipWhitespace U s))"
    using assms(1) by (rule getChar_Some_in_range)
  with assms show ?thesis
    by (subst nextToken.simps) (simp add: Let_def)
qed

text \<open>The ways in which a call of \<open>nextToken\<close> can return.\<close>

lemma nextToken_cases [consumes 1, case_names Eof String Marker OneChar TwoChar Ellipsis Comment
    BooleanOp Number Ident Skip]:
  assumes "nextToken U s = Some (r, s')"
  obtains
    (Eof) "r = Inr None" "s' = skipWhitespace U s"
  | (String) t where "r = Inr (Some t)" "readString (skipWhitespace U s) = (t, s')"
  | (Marker) t where "r = Inr (Some t)"
      "getOneCharToken
         (if \<not> allowNewLineMarkers (skipWhitespace U s)
          then error (skipWhitespace U s) UnexpectedNewLineMarker else skipWhitespace U s)
         T_NewLineMarker = (t, s')"
  | (OneChar) t k where "r = Inr (Some t)" "getOneCharToken (skipWhitespace U s) k = (t, s')"
      "\<not> carriesValue k"
  | (TwoChar) t k where "r = Inr (Some t)" "getTwoCharToken (skipWhitespace U s) k = (t, s')"
      "\<not> carriesValue k"
  | (Ellipsis) t where "r = Inr (Some t)" "readEllipsis (skipWhitespace U s) = (t, s')"
  | (Comment) t where "r = Inr (Some t)" "readComment (skipWhitespace U s) = Some (t, s')"
  | (BooleanOp) t k ch where "r = Inr (Some t)" "getBooleanOp (skipWhitespace U s) k ch = (t, s')"
      "\<not> carriesValue k"
  | (Number) r' where "readNumber U (skipWhitespace U s) = (r', s')"
      "r = (case r' of Inl e \<Rightarrow> Inl e | Inr t \<Rightarrow> Inr (Some t))"
  | (Ident) t where "r = Inr (Some t)" "readIdent U (skipWhitespace U s) = (t, s')"
  | (Skip) "pos (skipWhitespace U s) < length (input (skipWhitespace U s))"
      "nextToken U ((error (skipWhitespace U s) UnexpectedToken)
          \<lparr>pos := pos (skipWhitespace U s) + 1, col := col (skipWhitespace U s) + 1\<rparr>) = Some (r, s')"
proof -
  have e: "pos (error (skipWhitespace U s) UnexpectedToken) = pos (skipWhitespace U s)"
    "col (error (skipWhitespace U s) UnexpectedToken) = col (skipWhitespace U s)"
    by (simp_all add: error_def errorAt_def)
  have ret: "returns x = Some (r, s') \<longleftrightarrow> (r = Inr (Some (fst x)) \<and> x = (fst x, s'))" for x
    by (cases x) (auto simp: returns_def)
  from assms have "nextToken U s = Some (r, s')" .
  then show thesis
    unfolding nextToken.simps [of U s] Let_def e
    apply (simp only: ret split: if_splits)
    apply (auto intro: that simp: carriesValue_def returns_def split: prod.splits sum.splits option.splits)
    done
qed

subsection \<open>Comments that are not ended by a line feed\<close>

text \<open>
  \<open>readComment\<close> looks for the next line feed with \<open>indexOf\<close> and continues at the index
  after it. When there is no line feed, \<open>indexOf\<close> gives \<open>-1\<close> and the tokenizer continues at
  index \<open>0\<close>: with the input \<open>//abc\<close> it is at the same comment again, forever.
\<close>

lemma readComment_loop_never_returns:
  assumes "readComment_loop s val = Some y"
  shows "\<not> (input s = [0x2f, 0x2f, 0x61, 0x62, 0x63] \<and> pos s = 0)"
proof (rule readComment_loop.raw_induct
    [where P = "\<lambda>s val y. \<not> (input s = [0x2f, 0x2f, 0x61, 0x62, 0x63] \<and> pos s = 0)", OF _ assms])
  fix loop :: "tokenizer \<Rightarrow> nat list \<Rightarrow> (tokenizer \<times> nat list) option"
  fix s val y
  assume IH: "\<And>s val y. loop s val = Some y \<Longrightarrow>
      \<not> (input s = [0x2f, 0x2f, 0x61, 0x62, 0x63] \<and> pos s = 0)"
  assume step: "(let index = nat (indexOf (input s) 0x0a (pos s) + 1);
          val1 = val @ slice (input s) (pos s) index;
          s1 = s\<lparr>pos := index, row := row s + 1\<rparr>
      in if pos s1 < length (input s1) \<and> getChar s1 = Some 0x2f \<and> peekChar s1 = Some 0x2f
         then loop s1 val1
         else Some (s1, val1)) = Some y"
  show "\<not> (input s = [0x2f, 0x2f, 0x61, 0x62, 0x63] \<and> pos s = 0)"
  proof
    assume a: "input s = [0x2f, 0x2f, 0x61, 0x62, 0x63] \<and> pos s = 0"
    let ?s1 = "s\<lparr>pos := 0, row := row s + 1\<rparr>"
    from a step have "loop ?s1 val = Some y"
      by (simp add: Let_def indexOf_def slice_def getChar_def peekChar_def charCodeAt_def)
    then have "\<not> (input ?s1 = [0x2f, 0x2f, 0x61, 0x62, 0x63] \<and> pos ?s1 = 0)"
      by (rule IH)
    with a show False by simp
  qed
qed

text \<open>
  Claim C1 says that every call of \<open>nextToken\<close> returns. On the input \<open>//abc\<close>, with the
  default options, the first call does not return.
\<close>

theorem nextToken_comment_without_newline:
  "nextToken sampleTables (Tokenizer [0x2f, 0x2f, 0x61, 0x62, 0x63] defaults emptyHeap) = None"
proof -
  let ?s = "Tokenizer [0x2f, 0x2f, 0x61, 0x62, 0x63] defaults emptyHeap"
  have "readComment_loop ?s [] = None"
  proof (cases "readComment_loop ?s []")
    case (Some y)
    then have "\<not> (input ?s = [0x2f, 0x2f, 0x61, 0x62, 0x63] \<and> pos ?s = 0)"
      by (rule readComment_loop_never_returns)
    then show ?thesis by (simp add: tokenizer_defs)
  qed simp
  then have "readComment ?s = None"
    by (simp add: readComment_def Let_def Tokenizer_def defaults_def newArray_def emptyHeap_def)
  moreover have "skipWhitespace sampleTables ?s = ?s"
    by (simp add: skipWhitespace.simps tokenizer_defs)
  ultimately show ?thesis
    by (subst nextToken.simps) (simp add: Let_def, simp add: tokenizer_defs)
qed

text \<open>
  Claim C3 says that no token starts after its end. On the input \<^verbatim>\<open> //c\<close> (a space, then a
  comment with no line feed) the comment token starts at offset 1 and ends at offset 0.
\<close>

theorem nextToken_comment_ends_before_start:
  "\<exists>t s'. nextToken sampleTables (Tokenizer [0x20, 0x2f, 0x2f, 0x63] defaults emptyHeap)
       = Some (Inr (Some t), s') \<and>
     kind t = T_Comment \<and> offset (tstart t) = 1 \<and> offset (tend t) = 0"
  by (simp add: loop_simps tokenizer_defs)

subsection \<open>Escape sequences\<close>

text \<open>
  Claim C4 says that the character after the backslash of an unknown escape sequence is kept
  in the value. On the literal \<open>'a\qb'\<close> one \<open>UnknownEscapeSequence\<close> diagnostic is recorded
  and the value is \<open>ab\<close>: the backslash and the \<open>q\<close> are both dropped.
\<close>

theorem readString_unknown_escape:
  "\<exists>t s'. nextToken sampleTables (Tokenizer [0x27, 0x61, 0x5c, 0x71, 0x62, 0x27] defaults emptyHeap)
       = Some (Inr (Some t), s') \<and>
     kind t = T_String \<and> tvalue t = Some (Str [0x61, 0x62]) \<and>
     map code (arrays (mem s') (errors s')) = [UnknownEscapeSequence]"
  by (simp add: loop_simps tokenizer_defs)

subsection \<open>String literals that the end of the input cuts\<close>

text \<open>
  A token of a kind that carries a value has a value exactly when its error flag is not set,
  except for a string literal cut right after a backslash; a token of another kind has neither
  a value nor the flag.
\<close>

lemma readString_step_Inl:
  assumes "readString_step pos0 (s, ch, start, val) = Inl (t, s')" and "ch = getChar s"
  shows "kind t = T_String \<and> hasError t \<and> (tvalue t = None \<or> cutAfterBackslash (input s) t)"
proof (cases "ch = Some 0x5c \<and> pos s + 1 \<ge> length (input s)")
  case True
  then have "getChar s = Some 0x5c" using assms(2) by simp
  then have inr: "pos s < length (input s)" and at: "input s ! pos s = 0x5c"
    by (simp_all add: getChar_def charCodeAt_def split: if_splits)
  with True have len: "pos s + 1 = length (input s)" by simp
  then have "last (input s) = input s ! pos s"
    using inr by (metis add_diff_cancel_right' last_conv_nth length_greater_0_conv less_nat_zero_code list.size(3) not_gr_zero)
  with at have last: "last (input s) = 0x5c" by simp
  have ne: "input s \<noteq> []" using inr by auto
  from assms(1) True have "t = Token T_String pos0
      (getPosition (error (s\<lparr>pos := pos s + 1, col := col s + 1\<rparr>) UnexpectedEof))
      (Some (Str (val @ slice (input s) start (pos s)))) True"
    by (auto simp: readString_step_def Let_def)
  then show ?thesis
    using len last ne
    by (simp add: cutAfterBackslash_def Token_def getPosition_def error_def errorAt_def)
next
  case False
  with assms(1) show ?thesis
    by (auto simp: readString_step_def Let_def Token_def split: if_splits)
qed

lemma readString_step_Inr:
  assumes "readString_step pos0 (s, ch, start, val) = Inr (s', ch', start', val')"
  shows "ch' = getChar s' \<and> input s' = input s \<and> pos s < pos s'"
  using assms
  by (auto simp: readString_step_def Let_def error_def errorAt_def getChar_def
      split: if_splits)

lemma readString_loop_token:
  assumes "fst (snd x) = getChar (fst x)"
  shows "kind (fst (readString_loop pos0 x)) = T_String \<and>
    (hasError (fst (readString_loop pos0 x)) \<longrightarrow>
       tvalue (fst (readString_loop pos0 x)) = None \<or>
       cutAfterBackslash (input (fst x)) (fst (readString_loop pos0 x))) \<and>
    (\<not> hasError (fst (readString_loop pos0 x)) \<longrightarrow> tvalue (fst (readString_loop pos0 x)) \<noteq> None)"
  using assms
proof (induction pos0 x rule: readString_loop.induct)
  case (1 pos0 x)
  obtain s ch start val where x: "x = (s, ch, start, val)" by (cases x) auto
  with "1.prems" have ch: "ch = getChar s" by simp
  show ?case
  proof (cases "ch \<noteq> Some 0x27")
    case True
    show ?thesis
    proof (cases "readString_step pos0 x")
      case (Inl r)
      have "readString_loop pos0 x = r"
        using True x Inl by (subst readString_loop.simps) simp
      moreover have "kind (fst r) = T_String \<and> hasError (fst r) \<and>
          (tvalue (fst r) = None \<or> cutAfterBackslash (input s) (fst r))"
        using Inl x ch by (intro readString_step_Inl [of pos0 s ch start val "fst r" "snd r"]) simp_all
      ultimately show ?thesis using x by simp
    next
      case (Inr x')
      obtain s' ch' start' val' where x': "x' = (s', ch', start', val')" by (cases x') auto
      have adv: "ch' = getChar s' \<and> input s' = input s \<and> pos s < pos s'"
        using Inr x x' by (intro readString_step_Inr [of pos0 s ch start val s' ch' start' val']) simp
      have eq: "readString_loop pos0 x = readString_loop pos0 x'"
        using True x Inr by (subst readString_loop.simps) simp
      have "kind (fst (readString_loop pos0 x')) = T_String \<and>
        (hasError (fst (readString_loop pos0 x')) \<longrightarrow>
           tvalue (fst (readString_loop pos0 x')) = None \<or>
           cutAfterBackslash (input (fst x')) (fst (readString_loop pos0 x'))) \<and>
        (\<not> hasError (fst (readString_loop pos0 x')) \<longrightarrow> tvalue (fst (readString_loop pos0 x')) \<noteq> None)"
        using True x Inr adv x' by (intro "1.IH") simp_all
      then show ?thesis unfolding eq using x x' adv by simp
    qed
  next
    case False
    then show ?thesis
      using x by (subst (1 2 3 4 5 6) readString_loop.simps) (simp add: Let_def Token_def)
  qed
qed

lemma readString_loop_unterminated:
  assumes "fst (snd x) = getChar (fst x)"
    and "0x27 \<notin> set (drop (pos (fst x)) (input (fst x)))"
  shows "hasError (fst (readString_loop pos0 x))"
  using assms
proof (induction pos0 x rule: readString_loop.induct)
  case (1 pos0 x)
  obtain s ch start val where x: "x = (s, ch, start, val)" by (cases x) auto
  with "1.prems" have ch: "ch = getChar s" and noq: "0x27 \<notin> set (drop (pos s) (input s))"
    by simp_all
  have open_: "ch \<noteq> Some 0x27"
  proof
    assume "ch = Some 0x27"
    with ch have "pos s < length (input s)" "input s ! pos s = 0x27"
      by (simp_all add: getChar_def charCodeAt_def split: if_splits)
    then have "0x27 \<in> set (drop (pos s) (input s))"
      by (metis Cons_nth_drop_Suc list.set_intros(1))
    with noq show False by simp
  qed
  show ?case
  proof (cases "readString_step pos0 x")
    case (Inl r)
    have "readString_loop pos0 x = r"
      using open_ x Inl by (subst readString_loop.simps) simp
    moreover have "hasError (fst r)"
      using Inl x ch readString_step_Inl [of pos0 s ch start val "fst r" "snd r"] by simp
    ultimately show ?thesis by simp
  next
    case (Inr x')
    obtain s' ch' start' val' where x': "x' = (s', ch', start', val')" by (cases x') auto
    have adv: "ch' = getChar s' \<and> input s' = input s \<and> pos s < pos s'"
      using Inr x x' by (intro readString_step_Inr [of pos0 s ch start val s' ch' start' val']) simp
    have eq: "readString_loop pos0 x = readString_loop pos0 x'"
      using open_ x Inr by (subst readString_loop.simps) simp
    have "set (drop (pos s') (input s)) \<subseteq> set (drop (pos s) (input s))"
      using adv by (intro set_drop_subset_set_drop) simp
    with noq have "0x27 \<notin> set (drop (pos s') (input s'))" using adv by auto
    then have "hasError (fst (readString_loop pos0 x'))"
      using open_ x Inr adv x' by (intro "1.IH") simp_all
    then show ?thesis unfolding eq .
  qed
qed


lemma readString_token:
  "kind (fst (readString s)) = T_String \<and>
   (hasError (fst (readString s)) \<longrightarrow>
      tvalue (fst (readString s)) = None \<or> cutAfterBackslash (input s) (fst (readString s))) \<and>
   (\<not> hasError (fst (readString s)) \<longrightarrow> tvalue (fst (readString s)) \<noteq> None)"
  using readString_loop_token
    [of "(s\<lparr>pos := pos s + 1, col := col s + 1\<rparr>, getChar (s\<lparr>pos := pos s + 1, col := col s + 1\<rparr>),
         pos (s\<lparr>pos := pos s + 1, col := col s + 1\<rparr>), [])" "getPosition s"]
  by (simp add: readString_def Let_def)

lemma readString_unterminated:
  assumes "0x27 \<notin> set (drop (pos s + 1) (input s))"
  shows "hasError (fst (readString s))"
  using assms readString_loop_unterminated
    [of "(s\<lparr>pos := pos s + 1, col := col s + 1\<rparr>, getChar (s\<lparr>pos := pos s + 1, col := col s + 1\<rparr>),
         pos (s\<lparr>pos := pos s + 1, col := col s + 1\<rparr>), [])" "getPosition s"]
  by (simp add: readString_def Let_def)

lemma readNumber_token:
  assumes "readNumber U s = (Inr t, s')"
  shows "(kind t = T_Number \<or> kind t = T_HexNumber) \<and> (tvalue t = None) = hasError t"
  using assms
  by (auto simp: readNumber_def Let_def Token_def
      split: if_splits prod.splits sum.splits option.splits)

lemma readIdent_token:
  "(kind (fst (readIdent U s)) = T_Function \<or> kind (fst (readIdent U s)) = T_Constant \<or>
    kind (fst (readIdent U s)) = T_Variable) \<and>
   tvalue (fst (readIdent U s)) \<noteq> None \<and> \<not> hasError (fst (readIdent U s))"
  by (simp add: readIdent_def Let_def Token_def)

lemma readComment_token:
  assumes "readComment s = Some (t, s')"
  shows "kind t = T_Comment \<and> tvalue t \<noteq> None \<and> \<not> hasError t"
  using assms
  by (auto simp: readComment_def Let_def Token_def split: option.splits)

lemma operator_tokens:
  "kind (fst (getOneCharToken s k)) = k \<and> tvalue (fst (getOneCharToken s k)) = None \<and>
     \<not> hasError (fst (getOneCharToken s k))"
  "kind (fst (getTwoCharToken s k)) = k \<and> tvalue (fst (getTwoCharToken s k)) = None \<and>
     \<not> hasError (fst (getTwoCharToken s k))"
  "kind (fst (getBooleanOp s k ch)) = k \<and> tvalue (fst (getBooleanOp s k ch)) = None \<and>
     \<not> hasError (fst (getBooleanOp s k ch))"
  "kind (fst (readEllipsis s)) = T_Spread \<and> tvalue (fst (readEllipsis s)) = None \<and>
     \<not> hasError (fst (readEllipsis s))"
  by (simp_all add: getOneCharToken_def getTwoCharToken_def getBooleanOp_def readEllipsis_def
      Let_def Token_def)

lemma nextToken_token:
  assumes "nextToken U s = Some (Inr (Some t), s')"
  shows "(carriesValue (kind t) \<longrightarrow>
            (tvalue t = None) = hasError t \<or> cutAfterBackslash (input s) t) \<and>
         (\<not> carriesValue (kind t) \<longrightarrow> tvalue t = None \<and> \<not> hasError t)"
  using assms
proof (induction "length (input s) - pos s" arbitrary: s rule: less_induct)
  case less
  let ?sw = "skipWhitespace U s"
  have inp: "input ?sw = input s" using skipWhitespace_frame [of U s] by simp
  from less.prems show ?case
  proof (cases rule: nextToken_cases)
    case Eof
    then show ?thesis by simp
  next
    case (String t')
    then show ?thesis using readString_token [of ?sw] inp by (auto simp: carriesValue_def)
  next
    case (Marker t')
    then show ?thesis
      using operator_tokens(1)
        [of "if \<not> allowNewLineMarkers ?sw then error ?sw UnexpectedNewLineMarker else ?sw" T_NewLineMarker]
      by (auto simp: carriesValue_def)
  next
    case (OneChar t' k)
    then show ?thesis using operator_tokens(1) [of ?sw k] by auto
  next
    case (TwoChar t' k)
    then show ?thesis using operator_tokens(2) [of ?sw k] by auto
  next
    case (Ellipsis t')
    then show ?thesis using operator_tokens(4) [of ?sw] by (auto simp: carriesValue_def)
  next
    case (Comment t')
    then show ?thesis using readComment_token [of ?sw t' s'] by (auto simp: carriesValue_def)
  next
    case (BooleanOp t' k ch)
    then show ?thesis using operator_tokens(3) [of ?sw k ch] by auto
  next
    case (Number r')
    then show ?thesis using readNumber_token [of U ?sw t s'] by (auto simp: carriesValue_def split: sum.splits)
  next
    case (Ident t')
    then show ?thesis using readIdent_token [of U ?sw] by (auto simp: carriesValue_def)
  next
    case Skip
    let ?s2 = "(error ?sw UnexpectedToken)\<lparr>pos := pos ?sw + 1, col := col ?sw + 1\<rparr>"
    have "length (input ?s2) - pos ?s2 < length (input s) - pos s"
      using Skip(1) skipWhitespace_frame [of U s] by (auto simp: error_def errorAt_def)
    then have "(carriesValue (kind t) \<longrightarrow>
            (tvalue t = None) = hasError t \<or> cutAfterBackslash (input ?s2) t) \<and>
         (\<not> carriesValue (kind t) \<longrightarrow> tvalue t = None \<and> \<not> hasError t)"
      using Skip(2) by (rule less.hyps)
    moreover have "input ?s2 = input s" using inp by (simp add: error_def errorAt_def)
    ultimately show ?thesis by simp
  qed
qed

text \<open>
  A string literal that no quote ends, in an input whose last character is not a backslash,
  gives a \<open>String\<close> token with no value and the error flag set.
\<close>

lemma nextToken_unterminated_string:
  assumes quote: "getChar (skipWhitespace U s) = Some 0x27"
    and unclosed: "0x27 \<notin> set (drop (pos (skipWhitespace U s) + 1) (input s))"
    and last: "last (input s) \<noteq> 0x5c"
  shows "\<exists>t s'. nextToken U s = Some (Inr (Some t), s') \<and>
      kind t = T_String \<and> tvalue t = None \<and> hasError t"
proof -
  let ?s1 = "skipWhitespace U s"
  have inp: "input ?s1 = input s" using skipWhitespace_frame [of U s] by simp
  have inr: "pos ?s1 < length (input ?s1)" using quote by (intro getChar_Some_in_range) simp
  have ret: "nextToken U s = returns (readString ?s1)"
    using quote inr by (subst nextToken.simps) (simp add: Let_def)
  have err: "hasError (fst (readString ?s1))"
    using unclosed inp by (intro readString_unterminated) simp
  have "tvalue (fst (readString ?s1)) = None"
    using readString_token [of ?s1] err last inp by (auto simp: cutAfterBackslash_def)
  with err ret readString_token [of ?s1] show ?thesis
    by (simp add: returns_def)
qed

lemma unterminated_string_no_value:
  "\<exists>t s'. nextToken sampleTables (Tokenizer [0x27, 0x61] defaults emptyHeap)
       = Some (Inr (Some t), s') \<and>
     kind t = T_String \<and> tvalue t = None \<and> hasError t \<and>
     map code (arrays (mem s') (errors s')) = [UnexpectedEof]"
  by (simp add: loop_simps tokenizer_defs)

text \<open>
  Claim C2 says that a string literal in which the end of the input is reached before the
  closing quote, also right after a backslash, gives a \<open>String\<close> token with no value and the
  error flag set. On the input made of a quote, \<open>a\<close> and a backslash, \<open>readString\<close> returns at
  the test that follows the backslash, where it passes the text decoded so far to the token
  and not \<open>null\<close> as at the other test for the end of the input: the token has the value \<open>a\<close>
  and the error flag set.
\<close>

theorem string_cut_after_backslash:
  "\<exists>t s'. nextToken sampleTables (Tokenizer [0x27, 0x61, 0x5c] defaults emptyHeap)
       = Some (Inr (Some t), s') \<and>
     kind t = T_String \<and> tvalue t = Some (Str [0x61]) \<and> hasError t \<and>
     map code (arrays (mem s') (errors s')) = [UnexpectedEof]"
  by (simp add: loop_simps tokenizer_defs)

subsection \<open>Boolean operators\<close>

text \<open>
  Claim C5, as amended. When the character at the cursor (after whitespace) is \<open>&\<close> or \<open>|\<close> and
  the next character is not the same one, \<open>nextToken\<close> returns an \<open>And\<close> or \<open>Or\<close> token
  that covers that one character, moves the cursor by one code unit and appends exactly one
  \<open>UnknownOperator\<close> diagnostic, located at the operator, to the errors.
\<close>

theorem getBooleanOp_mismatch:
  fixes U s
  defines "s1 \<equiv> skipWhitespace U s"
  assumes cur: "getChar s1 = Some ch" and amp: "ch = 0x26 \<or> ch = 0x7c"
    and mismatch: "peekChar s1 \<noteq> Some ch"
  shows "\<exists>t s'. nextToken U s = Some (Inr (Some t), s') \<and>
      kind t = (if ch = 0x26 then T_And else T_Or) \<and>
      tstart t = getPosition s1 \<and> offset (tend t) = pos s1 + 1 \<and>
      tvalue t = None \<and> \<not> hasError t \<and>
      pos s' = pos s1 + 1 \<and>
      arrays (mem s') (errors s') = arrays (mem s) (errors s) @
        [\<lparr>code = UnknownOperator, range_start = getPosition s1, range_end = getPosition s1\<rparr>]"
proof -
  have inr: "pos s1 < length (input s1)"
    using cur by (rule getChar_Some_in_range)
  have frame: "mem s1 = mem s" "errors s1 = errors s"
    using skipWhitespace_fields [of U s] by (simp_all add: s1_def)
  have "nextToken U s = returns (getBooleanOp s1 (if ch = 0x26 then T_And else T_Or) ch)"
    using amp cur inr unfolding s1_def
    by (subst nextToken.simps) (auto simp: Let_def)
  then show ?thesis
    using mismatch frame
    by (simp add: getBooleanOp_def returns_def Let_def error_def errorAt_def push_def
        Token_def getPosition_def)
qed

theorem getBooleanOp_mismatch_witness:
  "getChar (skipWhitespace sampleTables (Tokenizer [0x20, 0x7c, 0x79] defaults emptyHeap)) = Some 0x7c \<and>
   peekChar (skipWhitespace sampleTables (Tokenizer [0x20, 0x7c, 0x79] defaults emptyHeap)) \<noteq> Some 0x7c \<and>
   (\<exists>t s'. nextToken sampleTables (Tokenizer [0x20, 0x7c, 0x79] defaults emptyHeap)
        = Some (Inr (Some t), s') \<and>
      kind t = T_Or \<and> offset (tstart t) = 1 \<and> offset (tend t) = 2 \<and> pos s' = 2 \<and>
      map code (arrays (mem s') (errors s')) = [UnknownOperator])"
proof -
  let ?s = "Tokenizer [0x20, 0x7c, 0x79] defaults emptyHeap"
  have sk: "skipWhitespace sampleTables ?s = ?s\<lparr>pos := 1, col := 1\<rparr>"
    by (simp add: skipWhitespace.simps tokenizer_defs)
  have a: "getChar (skipWhitespace sampleTables ?s) = Some 0x7c"
    unfolding sk by (simp add: tokenizer_defs)
  have b: "peekChar (skipWhitespace sampleTables ?s) \<noteq> Some 0x7c"
    unfolding sk by (simp add: tokenizer_defs)
  from getBooleanOp_mismatch [OF a _ b] a b show ?thesis
    unfolding sk by (auto simp: tokenizer_defs)
qed

text \<open>The claim as stated has the cursor two code units on; for \<open>&x\<close> it is one.\<close>

theorem single_ampersand_advances_by_one:
  "\<exists>t s'. nextToken sampleTables (Tokenizer [0x26, 0x78] defaults emptyHeap) = Some (Inr (Some t), s') \<and>
     kind t = T_And \<and> offset (tend t) = 1 \<and> pos s' = 1 \<and>
     map code (arrays (mem s') (errors s')) = [UnknownOperator]"
  by (simp add: loop_simps tokenizer_defs)

subsection \<open>Hexadecimal literals\<close>



subsection \<open>Decimal literals with an exponent\<close>

text \<open>
  The loop of \<open>readNumber\<close> on a literal made of digits, \<open>e\<close> or \<open>E\<close>, an optional \<open>+\<close> and
  digits: one phase per part of the literal.
\<close>

lemma asciiDigit_isDigit:
  "asciiDigitsOnly U \<Longrightarrow> asciiDigit d \<Longrightarrow> isDigit U (Some d) \<and> \<not> d > 127"
  by (auto simp: asciiDigitsOnly_def asciiDigit_def)

lemma letter_e_not_digit:
  "asciiDigitsOnly U \<Longrightarrow> e = 0x65 \<or> e = 0x45 \<Longrightarrow> \<not> isDigit U (Some e) \<and> bitOr (Some e) 0x20 = 0x65"
  by (auto simp: asciiDigitsOnly_def asciiDigit_def bitOr_def)

lemma readNumber_loop_unfold:
  "pos s < length (input s) \<Longrightarrow> readNumber_step U pos0 (s, v) = Some sv' \<Longrightarrow>
   readNumber_loop U pos0 (s, v) = readNumber_loop U pos0 sv'"
  by (subst readNumber_loop.simps) simp

lemma readNumber_loop_break:
  "readNumber_step U pos0 (s, v) = None \<Longrightarrow> readNumber_loop U pos0 (s, v) = (s, v)"
  by (subst readNumber_loop.simps) simp

lemma readNumber_loop_end:
  "\<not> pos s < length (input s) \<Longrightarrow> readNumber_loop U pos0 (s, v) = (s, v)"
  by (subst readNumber_loop.simps) simp

lemma readNumber_step_int_digit:
  assumes "asciiDigitsOnly U" "asciiDigit d" "nc v = Some d" "\<not> isExp v" "decimalDigits v = 0"
  shows "readNumber_step U pos0 (s, v) =
    Some (s\<lparr>pos := pos s + 1, col := col s + 1\<rparr>,
          v\<lparr>intValue := intValue v * 10 + (int d - 0x30),
            nc := getChar (s\<lparr>pos := pos s + 1, col := col s + 1\<rparr>)\<rparr>)"
  using assms asciiDigit_isDigit [of U d]
  by (simp add: readNumber_step_def Let_def)

lemma readNumber_step_exp_digit:
  assumes "asciiDigitsOnly U" "asciiDigit d" "nc v = Some d" "isExp v"
  shows "readNumber_step U pos0 (s, v) =
    Some (s\<lparr>pos := pos s + 1, col := col s + 1\<rparr>,
          v\<lparr>expo := plusNumber (timesNumber (expo v) 10) (d - 0x30),
            nc := getChar (s\<lparr>pos := pos s + 1, col := col s + 1\<rparr>)\<rparr>)"
  using assms asciiDigit_isDigit [of U d]
  by (simp add: readNumber_step_def Let_def)


lemma readNumber_loop_int_digits:
  assumes "asciiDigitsOnly U"
    and "drop (pos s) (input s) = ds @ r # rest"
    and "\<forall>d \<in> set ds. asciiDigit d"
    and "nc v = getChar s" and "\<not> isExp v" and "decimalDigits v = 0"
  shows "readNumber_loop U pos0 (s, v) =
    readNumber_loop U pos0
      (s\<lparr>pos := pos s + length ds, col := col s + length ds\<rparr>,
       v\<lparr>intValue := foldl (\<lambda>a d. a * 10 + (int d - 0x30)) (intValue v) ds, nc := Some r\<rparr>)"
  using assms(2-)
proof (induction ds arbitrary: s v)
  case Nil
  then have "nc v = Some r" by (simp add: getChar_at)
  then have "v\<lparr>intValue := intValue v, nc := Some r\<rparr> = v" by simp
  then show ?case by simp
next
  case (Cons d ds)
  let ?s1 = "s\<lparr>pos := pos s + 1, col := col s + 1\<rparr>"
  let ?v1 = "v\<lparr>intValue := intValue v * 10 + (int d - 0x30), nc := getChar ?s1\<rparr>"
  from Cons.prems(1) have at: "drop (pos s) (input s) = d # (ds @ r # rest)" by simp
  have cur: "nc v = Some d" using Cons.prems(3) getChar_at [OF at] by simp
  have inr: "pos s < length (input s)" using drop_eq_ConsD(1) [OF at] .
  have nxt: "drop (pos ?s1) (input ?s1) = ds @ r # rest"
    using drop_eq_ConsD(3) [OF at] by simp
  have "readNumber_step U pos0 (s, v) = Some (?s1, ?v1)"
    using assms(1) Cons.prems(2,4,5) cur by (intro readNumber_step_int_digit) simp_all
  with inr have "readNumber_loop U pos0 (s, v) = readNumber_loop U pos0 (?s1, ?v1)"
    by (rule readNumber_loop_unfold)
  also have "\<dots> = readNumber_loop U pos0
      (?s1\<lparr>pos := pos ?s1 + length ds, col := col ?s1 + length ds\<rparr>,
       ?v1\<lparr>intValue := foldl (\<lambda>a d. a * 10 + (int d - 0x30)) (intValue ?v1) ds, nc := Some r\<rparr>)"
    using nxt Cons.prems(2,4,5) by (intro Cons.IH) simp_all
  finally show ?case by simp
qed

lemma readNumber_loop_exp_digits:
  assumes "asciiDigitsOnly U"
    and "drop (pos s) (input s) = es @ rest"
    and "\<forall>d \<in> set es. asciiDigit d"
    and "rest = [] \<or> (\<not> isDigit U (Some (hd rest)) \<and> hd rest \<noteq> 0x2e)"
    and "nc v = getChar s" and "isExp v"
  shows "readNumber_loop U pos0 (s, v) =
      (s\<lparr>pos := pos s + length es, col := col s + length es\<rparr>,
       v\<lparr>expo := foldl (\<lambda>a d. plusNumber (timesNumber a 10) (d - 0x30)) (expo v) es,
         nc := getChar (s\<lparr>pos := pos s + length es\<rparr>)\<rparr>)"
  using assms(2-)
proof (induction es arbitrary: s v)
  case Nil
  have same: "v\<lparr>expo := expo v, nc := getChar s\<rparr> = v"
    using Nil.prems(4) by simp
  have "readNumber_loop U pos0 (s, v) = (s, v)"
  proof (cases rest)
    case Nil
    with Nil.prems(1) have "\<not> pos s < length (input s)" by simp
    then show ?thesis by (rule readNumber_loop_end)
  next
    case (Cons r rs)
    with Nil.prems(1) have at: "drop (pos s) (input s) = r # rs" by simp
    have cur: "nc v = Some r" using Nil.prems(4) getChar_at [OF at] by simp
    have "readNumber_step U pos0 (s, v) = None"
      using Nil.prems(3,5) Cons cur by (simp add: readNumber_step_def Let_def)
    then show ?thesis by (rule readNumber_loop_break)
  qed
  then show ?case using same by simp
next
  case (Cons d es)
  let ?s1 = "s\<lparr>pos := pos s + 1, col := col s + 1\<rparr>"
  let ?v1 = "v\<lparr>expo := plusNumber (timesNumber (expo v) 10) (d - 0x30), nc := getChar ?s1\<rparr>"
  from Cons.prems(1) have at: "drop (pos s) (input s) = d # (es @ rest)" by simp
  have cur: "nc v = Some d" using Cons.prems(4) getChar_at [OF at] by simp
  have inr: "pos s < length (input s)" using drop_eq_ConsD(1) [OF at] .
  have nxt: "drop (pos ?s1) (input ?s1) = es @ rest"
    using drop_eq_ConsD(3) [OF at] by simp
  have "readNumber_step U pos0 (s, v) = Some (?s1, ?v1)"
    using assms(1) Cons.prems(2,5) cur by (intro readNumber_step_exp_digit) simp_all
  with inr have "readNumber_loop U pos0 (s, v) = readNumber_loop U pos0 (?s1, ?v1)"
    by (rule readNumber_loop_unfold)
  also have "\<dots> =
      (?s1\<lparr>pos := pos ?s1 + length es, col := col ?s1 + length es\<rparr>,
       ?v1\<lparr>expo := foldl (\<lambda>a d. plusNumber (timesNumber a 10) (d - 0x30)) (expo ?v1) es,
          nc := getChar (?s1\<lparr>pos := pos ?s1 + length es\<rparr>)\<rparr>)"
    using nxt Cons.prems(2,3,5) by (intro Cons.IH) (simp_all add: getChar_def)
  finally show ?case by (simp add: getChar_def)
qed

lemma readNumber_step_exponent_mark:
  assumes "asciiDigitsOnly U"
    and "drop (pos s) (input s) = e # sg @ x # rest"
    and "e = 0x65 \<or> e = 0x45" and "sg = [] \<or> sg = [0x2b]" and "asciiDigit x"
    and "nc v = getChar s" and "\<not> isExp v" and "decimalDigits v = 0"
  shows "readNumber_step U pos0 (s, v) =
    Some (s\<lparr>pos := pos s + 1 + length sg, col := col s + 2\<rparr>, v\<lparr>isExp := True, nc := Some x\<rparr>)"
proof -
  let ?s1 = "s\<lparr>pos := pos s + 1, col := col s + 1\<rparr>"
  have cur: "nc v = Some e" using assms(6) getChar_at [OF assms(2)] by simp
  have e: "\<not> isDigit U (Some e)" "bitOr (Some e) 0x20 = 0x65" "e \<noteq> 0x2e"
    using letter_e_not_digit [OF assms(1,3)] assms(3) by auto
  have nxt: "drop (pos ?s1) (input ?s1) = sg @ x # rest"
    using drop_eq_ConsD(3) [OF assms(2)] by simp
  have x: "x \<noteq> 0x2d" "x \<noteq> 0x2b" using assms(5) by (auto simp: asciiDigit_def)
  from assms(4) show ?thesis
  proof
    assume sg: "sg = []"
    with nxt have c1: "getChar ?s1 = Some x" by (simp add: getChar_at)
    then have c2: "getChar (s\<lparr>pos := pos s + 1, col := col s + 2\<rparr>) = Some x"
      by (simp add: getChar_def)
    show ?thesis
      using cur e x c1 c2 assms(7,8) sg
      by (simp add: readNumber_step_def Let_def)
  next
    assume sg: "sg = [0x2b]"
    with nxt have at: "drop (pos ?s1) (input ?s1) = 0x2b # x # rest" by simp
    have c1: "getChar ?s1 = Some 0x2b" using at by (rule getChar_at)
    have "drop (Suc (pos ?s1)) (input ?s1) = x # rest"
      using drop_eq_ConsD(3) [OF at] .
    then have "getChar (s\<lparr>pos := Suc (pos ?s1)\<rparr>) = Some x"
      by (intro getChar_at) simp
    then have c2: "getChar (s\<lparr>pos := pos s + 2, col := col s + 2\<rparr>) = Some x"
      by (simp add: getChar_def)
    show ?thesis
      using cur e c1 c2 assms(7,8) sg
      by (simp add: readNumber_step_def Let_def)
  qed
qed


lemma int_digits_value:
  assumes "\<forall>d \<in> set ds. asciiDigit d"
  shows "foldl (\<lambda>a d. a * 10 + (int d - 0x30)) (int a) ds = int (foldl (\<lambda>a d. a * 10 + (d - 0x30)) a ds)"
  using assms
proof (induction ds arbitrary: a)
  case Nil
  then show ?case by simp
next
  case (Cons d ds)
  then have "0x30 \<le> d" by (simp add: asciiDigit_def)
  then have eq: "int a * 10 + (int d - 0x30) = int (a * 10 + (d - 0x30))" by simp
  have "foldl (\<lambda>a d. a * 10 + (int d - 0x30)) (int (a * 10 + (d - 0x30))) ds =
      int (foldl (\<lambda>a d. a * 10 + (d - 0x30)) (a * 10 + (d - 0x30)) ds)"
    using Cons.prems by (intro Cons.IH) simp
  then show ?case unfolding foldl.simps eq .
qed

lemma digit_not_hex_prefix:
  assumes "asciiDigit d \<or> d = 0x65 \<or> d = 0x45"
  shows "bitOr (Some d) 0x20 \<noteq> 0x78"
proof -
  from assms have "d = 0x30 \<or> d = 0x31 \<or> d = 0x32 \<or> d = 0x33 \<or> d = 0x34 \<or> d = 0x35 \<or>
      d = 0x36 \<or> d = 0x37 \<or> d = 0x38 \<or> d = 0x39 \<or> d = 0x65 \<or> d = 0x45"
    unfolding asciiDigit_def by arith
  then show ?thesis by (elim disjE) (simp_all add: bitOr_def)
qed

lemma readNumber_exponent_literal:
  assumes tbl: "asciiDigitsOnly U"
    and at: "drop (pos s) (input s) = ds @ e # sg @ es @ rest"
    and ds: "ds \<noteq> []" "\<forall>d \<in> set ds. asciiDigit d"
    and e: "e = 0x65 \<or> e = 0x45" and sg: "sg = [] \<or> sg = [0x2b]"
    and es: "es \<noteq> []" "\<forall>d \<in> set es. asciiDigit d"
    and rest: "rest = [] \<or> (\<not> isDigit U (Some (hd rest)) \<and> hd rest \<noteq> 0x2e)"
  shows "readNumber U s =
    (let s' = s\<lparr>pos := pos s + length (ds @ e # sg @ es), col := col s + length ds + 2 + length es\<rparr>
     in case exponentOf es of
          None \<Rightarrow> (Inl RangeError, s')
        | Some E \<Rightarrow>
            if tooBig U (10 ^ E) \<or> tooBig U (int (decimalValue ds) * 10 ^ E)
            then (Inl RangeError, s')
            else (Inr (Token T_Number (getPosition s) (getPosition s')
                    (Some (BigInt (int (decimalValue ds) * 10 ^ E))) False), s'))"
proof -
  obtain d0 ds' where ds0: "ds = d0 # ds'" using ds(1) by (cases ds) auto
  obtain x es' where es0: "es = x # es'" using es(1) by (cases es) auto
  have at0: "drop (pos s) (input s) = d0 # (ds' @ e # sg @ es @ rest)"
    using at ds0 by simp
  have c0: "getChar s = Some d0" using at0 by (rule getChar_at)
  have nothex: "\<not> (getChar s = Some 0x30 \<and> bitOr (peekChar s) 0x20 = 0x78)"
  proof (cases ds')
    case Nil
    with at0 have "peekChar s = Some e" by (simp add: peekChar_at)
    with e digit_not_hex_prefix [of e] show ?thesis by simp
  next
    case (Cons d1 ds'')
    with at0 have "peekChar s = Some d1" by (simp add: peekChar_at)
    moreover have "asciiDigit d1" using ds(2) ds0 Cons by simp
    ultimately show ?thesis using digit_not_hex_prefix [of d1] by simp
  qed
  let ?v0 = "\<lparr>nc = getChar s, intValue = 0, fvalue = 0, expo = Some 0, expSign = 1,
      decimalDigits = 0, isUnicode = False, isExp = False\<rparr>"
  let ?sa = "s\<lparr>pos := pos s + length ds, col := col s + length ds\<rparr>"
  let ?va = "?v0\<lparr>intValue := foldl (\<lambda>a d. a * 10 + (int d - 0x30)) (intValue ?v0) ds, nc := Some e\<rparr>"
  let ?sb = "?sa\<lparr>pos := pos ?sa + 1 + length sg, col := col ?sa + 2\<rparr>"
  let ?vb = "?va\<lparr>isExp := True, nc := Some x\<rparr>"
  let ?sc = "?sb\<lparr>pos := pos ?sb + length es, col := col ?sb + length es\<rparr>"
  let ?vc = "?vb\<lparr>expo := foldl (\<lambda>a d. plusNumber (timesNumber a 10) (d - 0x30)) (expo ?vb) es,
      nc := getChar (?sb\<lparr>pos := pos ?sb + length es\<rparr>)\<rparr>"
  have p1: "readNumber_loop U (getPosition s) (s, ?v0) = readNumber_loop U (getPosition s) (?sa, ?va)"
    using tbl at ds(2) by (intro readNumber_loop_int_digits) simp_all
  have ata: "drop (pos ?sa) (input ?sa) = e # sg @ x # (es' @ rest)"
  proof -
    have "drop (pos s + length ds) (input s) = drop (length ds) (drop (pos s) (input s))"
      by (simp add: add.commute)
    then show ?thesis using at es0 by simp
  qed
  have inr: "pos ?sa < length (input ?sa)" using drop_eq_ConsD(1) [OF ata] .
  have x: "asciiDigit x" using es(2) es0 by simp
  have "readNumber_step U (getPosition s) (?sa, ?va) = Some (?sb, ?vb)"
    using tbl ata e sg x by (intro readNumber_step_exponent_mark) (simp_all add: getChar_at)
  with inr have p2: "readNumber_loop U (getPosition s) (?sa, ?va) = readNumber_loop U (getPosition s) (?sb, ?vb)"
    by (rule readNumber_loop_unfold)
  have atb: "drop (pos ?sb) (input ?sb) = es @ rest"
  proof -
    have "drop (pos ?sa + (1 + length sg)) (input s) = drop (1 + length sg) (drop (pos ?sa) (input ?sa))"
      by (simp add: add.commute)
    also have "\<dots> = es @ rest" unfolding ata using es0 by simp
    finally show ?thesis by (simp add: add.assoc)
  qed
  have curb: "getChar ?sb = Some x" using atb es0 by (intro getChar_at) simp
  have p3: "readNumber_loop U (getPosition s) (?sb, ?vb) = (?sc, ?vc)"
    using tbl atb es(2) rest curb by (intro readNumber_loop_exp_digits) simp_all
  have loop: "readNumber_loop U (getPosition s) (s, ?v0) = (?sc, ?vc)"
    using p1 p2 p3 by simp
  have iv: "foldl (\<lambda>a d. a * 10 + (int d - 0x30)) 0 ds = int (decimalValue ds)"
    using int_digits_value [OF ds(2), of 0] by (simp add: decimalValue_def)
  have len: "pos ?sc = pos s + length (ds @ e # sg @ es)" "col ?sc = col s + length ds + 2 + length es"
    by simp_all
  show ?thesis
    unfolding readNumber_def Let_def if_not_P [OF nothex] loop
    by (simp add: iv exponentOf_def add.assoc split: option.splits)
qed


lemma decimal_accumulate_mono:
  "a \<le> foldl (\<lambda>a d. a * 10 + (d - 0x30)) (a::nat) es"
proof (induction es arbitrary: a)
  case Nil
  then show ?case by simp
next
  case (Cons d es)
  have "a \<le> a * 10 + (d - 0x30)" by simp
  also have "\<dots> \<le> foldl (\<lambda>a d. a * 10 + (d - 0x30)) (a * 10 + (d - 0x30)) es"
    by (rule Cons.IH)
  finally show ?case by simp
qed

lemma toNumber_exact: "n < 2 ^ 53 \<Longrightarrow> toNumber n = Some n"
  by (simp add: toNumber_def)

lemma exponent_accumulate_exact:
  assumes "foldl (\<lambda>a d. a * 10 + (d - 0x30)) a es < 2 ^ 53"
  shows "foldl (\<lambda>a d. plusNumber (timesNumber a 10) (d - 0x30)) (Some a) es =
    Some (foldl (\<lambda>a d. a * 10 + (d - 0x30)) a es)"
  using assms
proof (induction es arbitrary: a)
  case Nil
  then show ?case by simp
next
  case (Cons d es)
  let ?b = "a * 10 + (d - 0x30)"
  have "?b \<le> foldl (\<lambda>a d. a * 10 + (d - 0x30)) ?b es"
    by (rule decimal_accumulate_mono)
  with Cons.prems have b: "?b < 2 ^ 53" by simp
  then have a: "a * 10 < 2 ^ 53" by simp
  have "plusNumber (timesNumber (Some a) 10) (d - 0x30) = Some ?b"
    using toNumber_exact [OF a] toNumber_exact [OF b]
    by (simp add: plusNumber_def timesNumber_def)
  moreover have "foldl (\<lambda>a d. plusNumber (timesNumber a 10) (d - 0x30)) (Some ?b) es =
      Some (foldl (\<lambda>a d. a * 10 + (d - 0x30)) ?b es)"
    using Cons.prems by (intro Cons.IH) simp
  ultimately show ?case by simp
qed

lemma exponentOf_exact:
  assumes "int (decimalValue es) \<le> MAX_SAFE_INTEGER"
  shows "exponentOf es = Some (decimalValue es)"
proof -
  have "decimalValue es < 2 ^ 53"
    using assms by (simp add: MAX_SAFE_INTEGER_def)
  then show ?thesis
    unfolding exponentOf_def decimalValue_def by (rule exponent_accumulate_exact)
qed

lemma nextToken_exponent_outcome:
  assumes tbl: "asciiDigitsOnly U"
    and at: "drop (pos (skipWhitespace U s)) (input (skipWhitespace U s)) = ds @ e # sg @ es @ rest"
    and ds: "ds \<noteq> []" "\<forall>d \<in> set ds. asciiDigit d"
    and e: "e = 0x65 \<or> e = 0x45" and sg: "sg = [] \<or> sg = [0x2b]"
    and es: "es \<noteq> []" "\<forall>d \<in> set es. asciiDigit d"
    and rest: "rest = [] \<or> (\<not> isDigit U (Some (hd rest)) \<and> hd rest \<noteq> 0x2e)"
    and E: "exponentOf es = Some E"
  shows "\<exists>s'. pos s' = pos (skipWhitespace U s) + length (ds @ e # sg @ es) \<and>
      arrays (mem s') (errors s') = arrays (mem s) (errors s) \<and>
      nextToken U s =
        (if tooBig U (10 ^ E) \<or> tooBig U (int (decimalValue ds) * 10 ^ E)
         then Some (Inl RangeError, s')
         else Some (Inr (Some \<lparr>kind = T_Number, tstart = getPosition (skipWhitespace U s),
                 tend = getPosition s',
                 tvalue = Some (BigInt (int (decimalValue ds) * 10 ^ E)), hasError = False\<rparr>), s'))"
proof -
  let ?s1 = "skipWhitespace U s"
  obtain d0 ds' where ds0: "ds = d0 # ds'" using ds(1) by (cases ds) auto
  have d0: "asciiDigit d0" using ds(2) ds0 by simp
  have "drop (pos ?s1) (input ?s1) = d0 # (ds' @ e # sg @ es @ rest)"
    using at ds0 by simp
  then have cur: "getChar ?s1 = Some d0" by (rule getChar_at)
  have frame: "mem ?s1 = mem s" "errors ?s1 = errors s"
    using skipWhitespace_fields [of U s] by simp_all
  have dispatch: "nextToken U s =
      (case readNumber U ?s1 of (Inl e, s2) \<Rightarrow> Some (Inl e, s2) | (Inr t, s2) \<Rightarrow> returns (t, s2))"
    using cur d0 asciiDigit_isDigit [OF tbl d0]
    by (intro nextToken_digit) (simp_all add: asciiDigit_def)
  have "readNumber U ?s1 =
    (let s' = ?s1\<lparr>pos := pos ?s1 + length (ds @ e # sg @ es), col := col ?s1 + length ds + 2 + length es\<rparr>
     in case exponentOf es of
          None \<Rightarrow> (Inl RangeError, s')
        | Some E \<Rightarrow>
            if tooBig U (10 ^ E) \<or> tooBig U (int (decimalValue ds) * 10 ^ E)
            then (Inl RangeError, s')
            else (Inr (Token T_Number (getPosition ?s1) (getPosition s')
                    (Some (BigInt (int (decimalValue ds) * 10 ^ E))) False), s'))"
    using tbl at ds e sg es rest by (rule readNumber_exponent_literal)
  then show ?thesis
    unfolding dispatch E
    using frame by (simp add: Let_def returns_def Token_def)
qed

lemma sampleTables_asciiDigitsOnly: "asciiDigitsOnly sampleTables"
  by (simp add: asciiDigitsOnly_def asciiDigit_def isDigit_def sampleTables_def)

text \<open>
  Within the limits of the double that holds the exponent and of the engine's BigInts, the
  token has the value that the literal denotes.
\<close>

lemma nextToken_integer_exponent:
  assumes tbl: "asciiDigitsOnly U"
    and at: "drop (pos (skipWhitespace U s)) (input (skipWhitespace U s)) = ds @ e # sg @ es @ rest"
    and ds: "ds \<noteq> []" "\<forall>d \<in> set ds. asciiDigit d"
    and e: "e = 0x65 \<or> e = 0x45" and sg: "sg = [] \<or> sg = [0x2b]"
    and es: "es \<noteq> []" "\<forall>d \<in> set es. asciiDigit d"
    and rest: "rest = [] \<or> (\<not> isDigit U (Some (hd rest)) \<and> hd rest \<noteq> 0x2e)"
    and safe: "int (decimalValue es) \<le> MAX_SAFE_INTEGER"
    and fits: "\<not> tooBig U (10 ^ decimalValue es)"
      "\<not> tooBig U (int (decimalValue ds) * 10 ^ decimalValue es)"
  shows "\<exists>t s'. nextToken U s = Some (Inr (Some t), s') \<and>
      kind t = T_Number \<and>
      tvalue t = Some (BigInt (int (decimalValue ds) * 10 ^ decimalValue es)) \<and>
      \<not> hasError t \<and>
      offset (tstart t) = pos (skipWhitespace U s) \<and>
      offset (tend t) = pos (skipWhitespace U s) + length (ds @ e # sg @ es) \<and>
      pos s' = pos (skipWhitespace U s) + length (ds @ e # sg @ es) \<and>
      arrays (mem s') (errors s') = arrays (mem s) (errors s)"
  using nextToken_exponent_outcome [OF tbl at ds e sg es rest exponentOf_exact [OF safe]] fits
  by (auto simp: getPosition_def)

lemma nextToken_2e3:
  "\<exists>t s'. nextToken sampleTables (Tokenizer [0x32, 0x65, 0x33] defaults emptyHeap)
        = Some (Inr (Some t), s') \<and>
      kind t = T_Number \<and> tvalue t = Some (BigInt 2000) \<and> \<not> hasError t \<and>
      offset (tend t) = 3"
  by (simp add: loop_simps tokenizer_defs plusNumber_def timesNumber_def toNumber_def
      tooBig_def bitlen.simps)

text \<open>Beyond the limit of the engine, the power of ten is a \<open>RangeError\<close>.\<close>

lemma bitlen_greater: "2 ^ k \<le> n \<Longrightarrow> k < bitlen n"
proof (induction k arbitrary: n)
  case 0
  then have "n \<noteq> 0" by auto
  then show ?case by (subst bitlen.simps) simp
next
  case (Suc k)
  then have "2 ^ k \<le> n div 2" by simp
  then have "k < bitlen (n div 2)" by (rule Suc.IH)
  moreover have "(0::nat) < 2 ^ Suc k" by simp
  then have "n \<noteq> 0" using Suc.prems by linarith
  ultimately show ?case by (subst bitlen.simps) simp
qed

lemma power_of_ten_tooBig:
  assumes "MAX_BIGINT_BITS U \<le> 3 * E"
  shows "tooBig U (10 ^ E)"
proof -
  have "(2::nat) ^ (3 * E) = 8 ^ E" by (simp add: power_mult)
  also have "\<dots> \<le> 10 ^ E" by (rule power_mono) simp_all
  finally have lt: "3 * E < bitlen (10 ^ E)" by (rule bitlen_greater)
  have eq: "nat \<bar>(10::int) ^ E\<bar> = 10 ^ E" by (simp add: nat_power_eq)
  show ?thesis unfolding tooBig_def eq using lt assms by linarith
qed

lemma nextToken_exponent_throws:
  assumes tbl: "asciiDigitsOnly U"
    and at: "drop (pos (skipWhitespace U s)) (input (skipWhitespace U s)) = ds @ e # sg @ es @ rest"
    and ds: "ds \<noteq> []" "\<forall>d \<in> set ds. asciiDigit d"
    and e: "e = 0x65 \<or> e = 0x45" and sg: "sg = [] \<or> sg = [0x2b]"
    and es: "es \<noteq> []" "\<forall>d \<in> set es. asciiDigit d"
    and rest: "rest = [] \<or> (\<not> isDigit U (Some (hd rest)) \<and> hd rest \<noteq> 0x2e)"
    and E: "exponentOf es = Some E"
    and big: "MAX_BIGINT_BITS U \<le> 3 * E"
  shows "\<exists>s'. nextToken U s = Some (Inl RangeError, s')"
  using nextToken_exponent_outcome [OF tbl at ds e sg es rest E] power_of_ten_tooBig [OF big]
  by auto

text \<open>
  Claim C7 says that every literal made of digits, \<open>e\<close> and digits gives a \<open>Number\<close> token
  with the exact integer value. On the input \<open>1e400000000\<close> the call of \<open>nextToken\<close> throws a
  \<open>RangeError\<close>: ten to the power 400000000 has more bits than V8 allows a BigInt.
\<close>

theorem readNumber_exponent_throws:
  "\<exists>s'. nextToken sampleTables
       (Tokenizer [0x31, 0x65, 0x34, 0x30, 0x30, 0x30, 0x30, 0x30, 0x30, 0x30, 0x30]
          defaults emptyHeap) = Some (Inl RangeError, s')"
proof (rule nextToken_exponent_throws [where ds = "[0x31]" and e = "0x65" and sg = "[]"
      and es = "[0x34, 0x30, 0x30, 0x30, 0x30, 0x30, 0x30, 0x30, 0x30]" and rest = "[]"
      and E = 400000000])
  let ?s = "Tokenizer [0x31, 0x65, 0x34, 0x30, 0x30, 0x30, 0x30, 0x30, 0x30, 0x30, 0x30]
      defaults emptyHeap"
  have sk: "skipWhitespace sampleTables ?s = ?s"
    by (simp add: skipWhitespace.simps tokenizer_defs)
  show "drop (pos (skipWhitespace sampleTables ?s)) (input (skipWhitespace sampleTables ?s)) =
      [0x31] @ 0x65 # [] @ [0x34, 0x30, 0x30, 0x30, 0x30, 0x30, 0x30, 0x30, 0x30] @ []"
    unfolding sk by (simp add: tokenizer_defs)
  show "exponentOf [0x34, 0x30, 0x30, 0x30, 0x30, 0x30, 0x30, 0x30, 0x30] = Some 400000000"
    by (simp add: exponentOf_def plusNumber_def timesNumber_def toNumber_def)
  show "MAX_BIGINT_BITS sampleTables \<le> 3 * 400000000"
    by (simp add: sampleTables_def)
qed (simp_all add: sampleTables_asciiDigitsOnly asciiDigit_def)

subsection \<open>Identifiers\<close>

lemma readIdent_loop_run:
  assumes "drop (pos s) (input s) = xs"
  shows "readIdent_loop U s =
    s\<lparr>pos := pos s + length (takeWhile (\<lambda>d. isLetter U (Some d) \<or> d = 0x5f \<or> isDigit U (Some d)) xs),
      col := col s + length (takeWhile (\<lambda>d. isLetter U (Some d) \<or> d = 0x5f \<or> isDigit U (Some d)) xs)\<rparr>"
  using assms
proof (induction xs arbitrary: s)
  case Nil
  then have "\<not> pos s < length (input s)" by simp
  then show ?case by (subst readIdent_loop.simps) simp
next
  case (Cons d xs)
  let ?s1 = "s\<lparr>pos := pos s + 1, col := col s + 1\<rparr>"
  have cur: "getChar s = Some d" using Cons.prems by (rule getChar_at)
  have inr: "pos s < length (input s)" using drop_eq_ConsD(1) [OF Cons.prems] .
  show ?case
  proof (cases "isLetter U (Some d) \<or> d = 0x5f \<or> isDigit U (Some d)")
    case True
    have "drop (pos ?s1) (input ?s1) = xs"
      using drop_eq_ConsD(3) [OF Cons.prems] by simp
    then have "readIdent_loop U ?s1 =
      ?s1\<lparr>pos := pos ?s1 + length (takeWhile (\<lambda>d. isLetter U (Some d) \<or> d = 0x5f \<or> isDigit U (Some d)) xs),
        col := col ?s1 + length (takeWhile (\<lambda>d. isLetter U (Some d) \<or> d = 0x5f \<or> isDigit U (Some d)) xs)\<rparr>"
      by (rule Cons.IH)
    moreover have "readIdent_loop U s = readIdent_loop U ?s1"
      using True cur inr by (subst readIdent_loop.simps) auto
    ultimately show ?thesis using True by simp
  next
    case False
    then have "readIdent_loop U s = s"
      using cur by (subst readIdent_loop.simps) auto
    with False show ?thesis by simp
  qed
qed

lemma skipWhitespace_run:
  assumes "drop (pos s) (input s) = xs"
  shows "pos (skipWhitespace U s) = pos s + length (takeWhile (\<lambda>d. isWhitespace U (Some d)) xs)"
  using assms
proof (induction xs arbitrary: s)
  case Nil
  then have "\<not> pos s < length (input s)" by simp
  then show ?case by (subst skipWhitespace.simps) simp
next
  case (Cons d xs)
  have cur: "getChar s = Some d" using Cons.prems by (rule getChar_at)
  have inr: "pos s < length (input s)" using drop_eq_ConsD(1) [OF Cons.prems] .
  show ?case
  proof (cases "isWhitespace U (Some d)")
    case True
    let ?s1 = "s\<lparr>pos := pos s + 1, col := col s + 1\<rparr>"
    let ?s2 = "if d = 0x0a then ?s1\<lparr>row := row ?s1 + 1, col := 0\<rparr> else ?s1"
    have "drop (pos ?s2) (input ?s2) = xs"
      using drop_eq_ConsD(3) [OF Cons.prems] by simp
    then have "pos (skipWhitespace U ?s2) = pos ?s2 + length (takeWhile (\<lambda>d. isWhitespace U (Some d)) xs)"
      by (rule Cons.IH)
    moreover have "skipWhitespace U s = skipWhitespace U ?s2"
      using True cur inr by (subst skipWhitespace.simps) (simp add: Let_def)
    ultimately show ?thesis using True by simp
  next
    case False
    then have "skipWhitespace U s = s"
      using cur by (subst skipWhitespace.simps) simp
    with False show ?thesis by simp
  qed
qed

lemma getChar_drop:
  "getChar s = (case drop (pos s) (input s) of [] \<Rightarrow> None | d # _ \<Rightarrow> Some d)"
proof (cases "drop (pos s) (input s)")
  case Nil
  then show ?thesis by (simp add: getChar_beyond)
next
  case (Cons d ds)
  then show ?thesis by (simp add: getChar_at)
qed

text \<open>
  What \<open>readIdent\<close> returns. Let \<open>run\<close> be the longest run of letters, underscores and digits
  after the character at the cursor, \<open>ws\<close> the whitespace after it and \<open>rest\<close> what follows that
  whitespace. The text of the token is the character at the cursor and \<open>run\<close>, with no
  whitespace in it; its kind is \<open>Function\<close> exactly when \<open>rest\<close> begins with an opening
  parenthesis, otherwise \<open>Constant\<close> exactly when the text is a reserved constant, otherwise
  \<open>Variable\<close>. The end position of the token is the position of the cursor after \<open>ws\<close>.
\<close>

lemma readIdent_classification:
  fixes U s
  defines "identChar \<equiv> \<lambda>d. isLetter U (Some d) \<or> d = 0x5f \<or> isDigit U (Some d)"
  defines "run \<equiv> takeWhile identChar (drop (pos s + 1) (input s))"
  defines "after \<equiv> dropWhile identChar (drop (pos s + 1) (input s))"
  defines "ws \<equiv> takeWhile (\<lambda>d. isWhitespace U (Some d)) after"
  defines "rest \<equiv> dropWhile (\<lambda>d. isWhitespace U (Some d)) after"
  assumes inr: "pos s < length (input s)"
  shows "\<exists>t s'. readIdent U s = (t, s') \<and>
      tvalue t = Some (Str (input s ! pos s # run)) \<and>
      kind t = (if rest \<noteq> [] \<and> hd rest = 0x28 then T_Function
                else if input s ! pos s # run \<in> CONSTANTS U then T_Constant
                else T_Variable) \<and>
      \<not> hasError t \<and> tstart t = getPosition s \<and> tend t = getPosition s' \<and>
      pos s' = pos s + 1 + length run + length ws"
proof -
  let ?s0 = "s\<lparr>pos := pos s + 1, col := col s + 1\<rparr>"
  let ?s1 = "readIdent_loop U ?s0"
  let ?s2 = "skipWhitespace U ?s1"
  have s1: "?s1 = ?s0\<lparr>pos := pos ?s0 + length run, col := col ?s0 + length run\<rparr>"
    unfolding run_def identChar_def by (rule readIdent_loop_run) simp
  have after: "drop (pos ?s1) (input ?s1) = after"
  proof -
    have "drop (pos s + 1 + length run) (input s) = drop (length run) (drop (pos s + 1) (input s))"
      by (simp add: add.commute)
    also have "\<dots> = after"
      unfolding run_def after_def by (simp add: dropWhile_eq_drop)
    finally show ?thesis unfolding s1 by simp
  qed
  have p2: "pos ?s2 = pos ?s1 + length ws"
    unfolding ws_def using after by (rule skipWhitespace_run)
  have i1: "input ?s1 = input s" unfolding s1 by simp
  have i2: "input ?s2 = input ?s1"
    using skipWhitespace_frame [of U ?s1] by simp
  have "drop (pos ?s2) (input ?s2) = drop (length ws) (drop (pos ?s1) (input ?s1))"
    unfolding p2 i2 by (simp add: add.commute)
  also have "\<dots> = rest"
    unfolding after ws_def rest_def by (simp add: dropWhile_eq_drop)
  finally have rest: "drop (pos ?s2) (input ?s2) = rest" .
  have paren: "getChar ?s2 = Some 0x28 \<longleftrightarrow> rest \<noteq> [] \<and> hd rest = 0x28"
    unfolding getChar_drop rest by (cases rest) auto
  have "slice (input ?s1) (pos s) (pos ?s1) = take (Suc (length run)) (drop (pos s) (input s))"
    unfolding s1 by (simp add: slice_def)
  also have "drop (pos s) (input s) = input s ! pos s # drop (pos s + 1) (input s)"
    using inr by (simp add: Cons_nth_drop_Suc)
  also have "take (Suc (length run)) (input s ! pos s # drop (pos s + 1) (input s)) = input s ! pos s # run"
    unfolding run_def by (simp add: takeWhile_eq_take [symmetric])
  finally have ident: "slice (input ?s1) (pos s) (pos ?s1) = input s ! pos s # run" .
  have p1: "pos ?s1 = pos s + 1 + length run" unfolding s1 by simp
  have "readIdent U s =
      (Token (if getChar ?s2 = Some 0x28 then T_Function
              else if slice (input ?s1) (pos s) (pos ?s1) \<in> CONSTANTS U then T_Constant
              else T_Variable)
         (getPosition s) (getPosition ?s2) (Some (Str (slice (input ?s1) (pos s) (pos ?s1)))) False, ?s2)"
    by (simp add: readIdent_def Let_def getPosition_def)
  then show ?thesis
    unfolding paren ident using p2 p1 by (simp add: Token_def)
qed

lemma readIdent_classification_pi:
  "pos (Tokenizer [0x70, 0x69, 0x20, 0x3b] defaults emptyHeap)
     < length (input (Tokenizer [0x70, 0x69, 0x20, 0x3b] defaults emptyHeap)) \<and>
   (\<exists>t s'. readIdent sampleTables (Tokenizer [0x70, 0x69, 0x20, 0x3b] defaults emptyHeap) = (t, s') \<and>
      kind t = T_Constant \<and> tvalue t = Some (Str [0x70, 0x69]) \<and> \<not> hasError t \<and>
      offset (tstart t) = 0 \<and> offset (tend t) = 3 \<and> pos s' = 3)"
proof -
  let ?s = "Tokenizer [0x70, 0x69, 0x20, 0x3b] defaults emptyHeap"
  have s: "pos ?s = 0" "input ?s = [0x70, 0x69, 0x20, 0x3b]" "getPosition ?s = \<lparr>offset = 0, prow = 0, pcol = 0\<rparr>"
    by (simp_all add: Tokenizer_def defaults_def emptyHeap_def newArray_def getPosition_def)
  have inr: "pos ?s < length (input ?s)" by (simp add: s)
  from readIdent_classification [OF inr, of sampleTables] inr show ?thesis
    unfolding s
    by (auto simp: sampleTables_def isLetter_def isDigit_def isWhitespace_def getPosition_def)
qed

text \<open>
  Claim C9 says that the whitespace after the identifier is skipped without being part of the
  token. \<open>readIdent\<close> takes the end position of the token after \<open>skipWhitespace\<close>, where every
  other reader takes it before the whitespace that follows: on the input \<open>foo\<close>, two spaces and
  an opening parenthesis, the \<open>Function\<close> token with the text \<open>foo\<close> starts at offset 0 and
  ends at offset 5, so that its span covers the two spaces.
\<close>

theorem identifier_span_covers_whitespace:
  "\<exists>t s'. nextToken sampleTables (Tokenizer [0x66, 0x6f, 0x6f, 0x20, 0x20, 0x28] defaults emptyHeap)
       = Some (Inr (Some t), s') \<and>
     kind t = T_Function \<and> tvalue t = Some (Str [0x66, 0x6f, 0x6f]) \<and>
     offset (tstart t) = 0 \<and> offset (tend t) = 5"
  by (simp add: loop_simps tokenizer_defs)

subsection \<open>The diagnostics\<close>

lemma logged_refl [simp]: "logged s s"
  unfolding logged_def by (auto intro: exI [of _ "[]"])

lemma logged_trans: "logged a b \<Longrightarrow> logged b c \<Longrightarrow> logged a c"
  unfolding logged_def by (elim conjE exE) (simp, metis append.assoc)

lemma logged_cursor [simp]:
  "logged s (s'\<lparr>pos := p\<rparr>) = logged s s'"
  "logged s (s'\<lparr>row := q\<rparr>) = logged s s'"
  "logged s (s'\<lparr>col := c\<rparr>) = logged s s'"
  by (simp_all add: logged_def)

lemma logged_errorAt [simp]: "logged s s' \<Longrightarrow> logged s (errorAt s' d p q)"
  unfolding logged_def errorAt_def push_def
  by (elim conjE exE) (simp, metis append.assoc)

lemma logged_error [simp]: "logged s s' \<Longrightarrow> logged s (error s' d)"
  by (simp add: error_def)

lemma logged_skipWhitespace: "logged s (skipWhitespace U s)"
  using skipWhitespace_fields [of U s] skipWhitespace_frame [of U s]
  unfolding logged_def by (auto intro: exI [of _ "[]"])

lemma logged_readString_step_Inl:
  "readString_step pos0 (s, ch, start, val) = Inl (t, s') \<Longrightarrow> logged s s'"
  by (auto simp: readString_step_def Let_def split: if_splits)

lemma logged_readString_step_Inr:
  "readString_step pos0 (s, ch, start, val) = Inr (s', x) \<Longrightarrow> logged s s'"
  by (auto simp: readString_step_def Let_def split: if_splits)

lemma logged_readString_loop: "logged (fst x) (snd (readString_loop pos0 x))"
proof (induction pos0 x rule: readString_loop.induct)
  case (1 pos0 x)
  obtain s ch start val where x: "x = (s, ch, start, val)" by (cases x) auto
  show ?case
  proof (cases "ch \<noteq> Some 0x27")
    case True
    show ?thesis
    proof (cases "readString_step pos0 x")
      case (Inl r)
      then have "logged s (snd r)"
        using x logged_readString_step_Inl [of pos0 s ch start val "fst r" "snd r"] by simp
      moreover have "readString_loop pos0 x = r"
        using True x Inl by (subst readString_loop.simps) simp
      ultimately show ?thesis using x by simp
    next
      case (Inr x')
      have a: "logged s (fst x')"
        using Inr x logged_readString_step_Inr [of pos0 s ch start val "fst x'" "snd x'"] by simp
      have b: "logged (fst x') (snd (readString_loop pos0 x'))"
        using True x Inr by (intro "1.IH") simp_all
      have "readString_loop pos0 x = readString_loop pos0 x'"
        using True x Inr by (subst readString_loop.simps) simp
      with a b x show ?thesis by (auto intro: logged_trans)
    qed
  next
    case False
    then show ?thesis
      using x by (subst readString_loop.simps) (simp add: Let_def)
  qed
qed

lemma logged_readString: "logged s (snd (readString s))"
  using logged_readString_loop
    [of "(s\<lparr>pos := pos s + 1, col := col s + 1\<rparr>, getChar (s\<lparr>pos := pos s + 1, col := col s + 1\<rparr>),
         pos (s\<lparr>pos := pos s + 1, col := col s + 1\<rparr>), [])" "getPosition s"]
  by (simp add: readString_def Let_def logged_def)


lemma logged_startFraction:
  "startFraction pos0 (s, v) = (s1, v1) \<Longrightarrow> logged s s1"
  by (auto simp: startFraction_def Let_def split: if_splits)

lemma logged_startFraction_moved:
  assumes "startFraction pos0 (s\<lparr>pos := p, col := q\<rparr>, v) = (s1, v1)"
  shows "logged s s1"
  using logged_startFraction [OF assms] by (simp add: logged_def)

lemma logged_readNumber_step:
  assumes "readNumber_step U pos0 (s, v) = Some (s', v')"
  shows "logged s s'"
  using assms
  by (auto simp: readNumber_step_def Let_def split: if_splits prod.splits
      dest: logged_startFraction logged_startFraction_moved)

lemma logged_readNumber_loop: "logged (fst sv) (fst (readNumber_loop U pos0 sv))"
proof (induction U pos0 sv rule: readNumber_loop.induct)
  case (1 U pos0 sv)
  show ?case
  proof (cases "pos (fst sv) < length (input (fst sv))")
    case True
    show ?thesis
    proof (cases "readNumber_step U pos0 sv")
      case None
      then show ?thesis by (subst readNumber_loop.simps) simp
    next
      case (Some sv')
      have a: "logged (fst sv) (fst sv')"
        using Some logged_readNumber_step [of U pos0 "fst sv" "snd sv" "fst sv'" "snd sv'"] by simp
      have b: "logged (fst sv') (fst (readNumber_loop U pos0 sv'))"
        using True Some by (rule "1.IH")
      have "readNumber_loop U pos0 sv = readNumber_loop U pos0 sv'"
        using True Some by (subst readNumber_loop.simps) simp
      with a b show ?thesis by (auto intro: logged_trans)
    qed
  next
    case False
    then show ?thesis by (subst readNumber_loop.simps) simp
  qed
qed

lemma logged_readHex_loop: "logged s (fst (readHex_loop s ch iv))"
proof (induction s ch iv rule: readHex_loop.induct)
  case (1 s ch iv)
  let ?iv1 = "push_bit 4 iv OR (if the ch < 0x3a then int (the ch) - 0x30 else int (bitOr ch 0x20) - 0x57)"
  let ?s1 = "s\<lparr>pos := pos s + 1, col := col s + 1\<rparr>"
  show ?case
  proof (cases "pos ?s1 < length (input ?s1) \<and> isHexDigit (getChar ?s1)")
    case True
    have "logged ?s1 (fst (readHex_loop ?s1 (getChar ?s1) ?iv1))"
      using True by (intro "1.IH") simp_all
    then have "logged s (fst (readHex_loop ?s1 (getChar ?s1) ?iv1))"
      by (simp add: logged_def)
    moreover have "readHex_loop s ch iv = readHex_loop ?s1 (getChar ?s1) ?iv1"
      by (subst readHex_loop.simps) (simp only: Let_def True simp_thms if_True)
    ultimately show ?thesis by simp
  next
    case False
    then have "readHex_loop s ch iv = (?s1, ?iv1)"
      by (subst readHex_loop.simps) (simp only: Let_def if_False)
    then show ?thesis by simp
  qed
qed

lemma logged_readNumber: "logged s (snd (readNumber U s))"
proof -
  have hex: "logged s s2" if "readHex_loop (s\<lparr>pos := p\<rparr>) ch iv = (s2, iv2)" for p ch iv s2 iv2
    using logged_readHex_loop [of "s\<lparr>pos := p\<rparr>" ch iv] that by (simp add: logged_def)
  have dec: "logged s s2" if "readNumber_loop U pos0 (s, v) = (s2, v2)" for pos0 v s2 v2
    using logged_readNumber_loop [of "(s, v)" U pos0] that by simp
  show ?thesis
    by (auto simp: readNumber_def Let_def split: prod.splits sum.splits option.splits if_splits
        dest: hex dec)
qed

lemma logged_readIdent_loop: "logged s (readIdent_loop U s)"
proof (induction U s rule: readIdent_loop.induct)
  case (1 U s)
  let ?s1 = "s\<lparr>pos := pos s + 1, col := col s + 1\<rparr>"
  show ?case
  proof (cases "pos s < length (input s) \<and>
      (isLetter U (getChar s) \<or> getChar s = Some 0x5f \<or> isDigit U (getChar s))")
    case True
    then have "logged ?s1 (readIdent_loop U ?s1)" by (rule "1.IH")
    then have "logged s (readIdent_loop U ?s1)" by (simp add: logged_def)
    moreover have "readIdent_loop U s = readIdent_loop U ?s1"
      by (subst readIdent_loop.simps) (simp only: True simp_thms if_True)
    ultimately show ?thesis by simp
  next
    case False
    then have "readIdent_loop U s = s"
      by (subst readIdent_loop.simps) (simp only: if_False)
    then show ?thesis by simp
  qed
qed

lemma logged_readIdent: "logged s (snd (readIdent U s))"
proof -
  let ?s1 = "s\<lparr>pos := pos s + 1, col := col s + 1\<rparr>"
  have "logged ?s1 (readIdent_loop U ?s1)" by (rule logged_readIdent_loop)
  then have "logged s (readIdent_loop U ?s1)" by (simp add: logged_def)
  then have "logged s (skipWhitespace U (readIdent_loop U ?s1))"
    using logged_skipWhitespace by (rule logged_trans)
  then show ?thesis by (simp add: readIdent_def Let_def)
qed

lemma logged_readComment_loop:
  assumes "readComment_loop s val = Some y"
  shows "logged s (fst y)"
proof (rule readComment_loop.raw_induct [where P = "\<lambda>s val y. logged s (fst y)", OF _ assms])
  fix loop :: "tokenizer \<Rightarrow> nat list \<Rightarrow> (tokenizer \<times> nat list) option"
  fix s val y
  assume IH: "\<And>s val y. loop s val = Some y \<Longrightarrow> logged s (fst y)"
  assume step: "(let index = nat (indexOf (input s) 0x0a (pos s) + 1);
          val1 = val @ slice (input s) (pos s) index;
          s1 = s\<lparr>pos := index, row := row s + 1\<rparr>
      in if pos s1 < length (input s1) \<and> getChar s1 = Some 0x2f \<and> peekChar s1 = Some 0x2f
         then loop s1 val1
         else Some (s1, val1)) = Some y"
  let ?s1 = "s\<lparr>pos := nat (indexOf (input s) 0x0a (pos s) + 1), row := row s + 1\<rparr>"
  let ?v1 = "val @ slice (input s) (pos s) (nat (indexOf (input s) 0x0a (pos s) + 1))"
  have step': "(if pos ?s1 < length (input ?s1) \<and> getChar ?s1 = Some 0x2f \<and> peekChar ?s1 = Some 0x2f
      then loop ?s1 ?v1 else Some (?s1, ?v1)) = Some y"
    using step by (simp only: Let_def)
  show "logged s (fst y)"
  proof (cases "pos ?s1 < length (input ?s1) \<and> getChar ?s1 = Some 0x2f \<and> peekChar ?s1 = Some 0x2f")
    case True
    have "loop ?s1 ?v1 = Some y"
      using step' by (simp only: if_P [OF True])
    then have "logged ?s1 (fst y)" by (rule IH)
    then show ?thesis by (simp add: logged_def)
  next
    case False
    have "Some (?s1, ?v1) = Some y"
      using step' by (simp only: if_not_P [OF False])
    then have "fst y = ?s1" by auto
    then show ?thesis by simp
  qed
qed

lemma logged_readComment:
  assumes "readComment s = Some (t, s')"
  shows "logged s s'"
proof -
  let ?s0 = "if \<not> allowComments s then error s UnexpectedComment else s"
  have s0: "logged s ?s0" by simp
  from assms obtain s1 val where loop: "readComment_loop ?s0 [] = Some (s1, val)" and s': "s' = s1\<lparr>col := 0\<rparr>"
    by (auto simp: readComment_def Let_def split: option.splits)
  have "logged ?s0 s1" using logged_readComment_loop [OF loop] by simp
  with s0 have "logged s s1" by (rule logged_trans)
  then show ?thesis by (simp add: s')
qed

lemma logged_operators:
  "logged s (snd (getOneCharToken s k))"
  "logged s (snd (getTwoCharToken s k))"
  "logged s (snd (getBooleanOp s k ch))"
  "logged s (snd (readEllipsis s))"
  by (simp_all add: getOneCharToken_def getTwoCharToken_def getBooleanOp_def readEllipsis_def Let_def)

lemma logged_nextToken:
  assumes "nextToken U s = Some (r, s')"
  shows "logged s s'"
  using assms
proof (induction "length (input s) - pos s" arbitrary: s rule: less_induct)
  case less
  let ?sw = "skipWhitespace U s"
  have sw: "logged s ?sw" by (rule logged_skipWhitespace)
  from less.prems have "logged ?sw s'"
  proof (cases rule: nextToken_cases)
    case Eof
    then show ?thesis by simp
  next
    case (String t)
    then show ?thesis using logged_readString [of ?sw] by simp
  next
    case (Marker t)
    let ?s0 = "if \<not> allowNewLineMarkers ?sw then error ?sw UnexpectedNewLineMarker else ?sw"
    have "logged ?sw ?s0" by simp
    moreover have "logged ?s0 s'" using Marker logged_operators(1) [of ?s0 T_NewLineMarker] by simp
    ultimately show ?thesis by (rule logged_trans)
  next
    case (OneChar t k)
    then show ?thesis using logged_operators(1) [of ?sw k] by simp
  next
    case (TwoChar t k)
    then show ?thesis using logged_operators(2) [of ?sw k] by simp
  next
    case (Ellipsis t)
    then show ?thesis using logged_operators(4) [of ?sw] by simp
  next
    case (Comment t)
    then show ?thesis by (intro logged_readComment)
  next
    case (BooleanOp t k ch)
    then show ?thesis using logged_operators(3) [of ?sw k ch] by simp
  next
    case (Number r')
    then show ?thesis using logged_readNumber [of ?sw U] by simp
  next
    case (Ident t)
    then show ?thesis using logged_readIdent [of ?sw U] by simp
  next
    case Skip
    let ?s2 = "(error ?sw UnexpectedToken)\<lparr>pos := pos ?sw + 1, col := col ?sw + 1\<rparr>"
    have "length (input ?s2) - pos ?s2 < length (input s) - pos s"
      using Skip(1) skipWhitespace_frame [of U s] by (auto simp: error_def errorAt_def)
    then have "logged ?s2 s'" using Skip(2) by (rule less.hyps)
    moreover have "logged ?sw ?s2" by simp
    ultimately show ?thesis by (rule logged_trans [rotated])
  qed
  with sw show ?case by (rule logged_trans)
qed

text \<open>
  Claim C10, as amended. A call of \<open>nextToken\<close> that returns or throws keeps the two references
  of the tokenizer, only appends to the array \<open>errors\<close> and leaves every other array of the
  heap as it was: the array \<open>warnings\<close> is unchanged whenever it is not the same array as
  \<open>errors\<close>.
\<close>

theorem nextToken_appends_to_errors_only:
  assumes "nextToken U s = Some (r, s')"
  shows "errors s' = errors s \<and> warnings s' = warnings s \<and>
    (\<exists>ds. arrays (mem s') (errors s) = arrays (mem s) (errors s) @ ds) \<and>
    (\<forall>a. a \<noteq> errors s \<longrightarrow> arrays (mem s') a = arrays (mem s) a) \<and>
    (warnings s \<noteq> errors s \<longrightarrow> arrays (mem s') (warnings s') = arrays (mem s) (warnings s))"
  using logged_nextToken [OF assms] unfolding logged_def by auto

theorem nextToken_appends_to_errors_only_witness:
  "\<exists>r s'. nextToken sampleTables (Tokenizer [0x24] defaults emptyHeap) = Some (r, s') \<and>
     warnings (Tokenizer [0x24] defaults emptyHeap) \<noteq> errors (Tokenizer [0x24] defaults emptyHeap) \<and>
     map code (arrays (mem s') (errors s')) = [UnexpectedNewLineMarker] \<and>
     arrays (mem s') (warnings s') =
       arrays (mem (Tokenizer [0x24] defaults emptyHeap)) (warnings (Tokenizer [0x24] defaults emptyHeap))"
proof -
  let ?s = "Tokenizer [0x24] defaults emptyHeap"
  obtain r s' where ret: "nextToken sampleTables ?s = Some (r, s')"
    and log: "map code (arrays (mem s') (errors s')) = [UnexpectedNewLineMarker]"
    by (simp add: loop_simps tokenizer_defs)
  have distinct: "warnings ?s \<noteq> errors ?s"
    by (simp add: tokenizer_defs)
  from nextToken_appends_to_errors_only [OF ret] distinct
  have "arrays (mem s') (warnings s') = arrays (mem ?s) (warnings ?s)" by simp
  with ret log distinct show ?thesis by simp
qed

text \<open>
  The claim as stated holds for every configuration; when the caller passes one array as both
  \<open>errors\<close> and \<open>warnings\<close>, a diagnostic appended to the errors is appended to the warnings.
\<close>

theorem shared_sink_warnings_change:
  "\<exists>r s'. nextToken sampleTables (Tokenizer [0x24] sharedSink oneArrayHeap) = Some (r, s') \<and>
     arrays (mem (Tokenizer [0x24] sharedSink oneArrayHeap)) (warnings (Tokenizer [0x24] sharedSink oneArrayHeap)) = [] \<and>
     map code (arrays (mem s') (warnings s')) = [UnexpectedNewLineMarker]"
  by (simp add: loop_simps tokenizer_defs sharedSink_def oneArrayHeap_def)

end
